theory Spec2Isabelle
  imports Complex_Main "HOL-Library.Word"
begin

section \<open>Data model of the order book (orderbook.cpp)\<close>

datatype OrderType = LIMIT | MARKET

datatype Side = BUY | SELL

type_synonym u64 = "64 word"

text \<open>
  Prices are C++ doubles.  The engine only ever compares prices and uses them as map
  keys, so a price is modelled as a real number (finite, non-NaN doubles with their
  order).  The wall-clock timestamps of orders and trades are not modelled.
\<close>

record Order =
  order_id :: u64
  side :: Side
  otype :: OrderType
  price :: real
  quantity :: u64

record Trade =
  buy_order_id :: u64
  sell_order_id :: u64
  trade_price :: real
  trade_quantity :: u64

text \<open>
  Orders are shared between a price level and the id index through
  \<^verbatim>\<open>std::shared_ptr<Order>\<close>.  The model keeps the pointed-to objects in a store
  \<open>heap\<close> from addresses to orders; deques and the index hold addresses.
  \<open>next_addr\<close> is the address the next allocation returns; it only ever grows, so
  a new object never aliases a live one.  An object is released from the store when its
  last owner lets go of it.  A \<^verbatim>\<open>shared_ptr\<close> held by a deque or by the index is never
  dangling; in the model every address held by a book that satisfies \<open>wf_book\<close> below
  is allocated, and every book reached from the empty book satisfies \<open>wf_book\<close>.
\<close>

type_synonym addr = nat

text \<open>
  A \<^verbatim>\<open>std::map<double, std::deque<...>, Compare>\<close> is an association list in
  iteration order, that is, strictly sorted by its comparator.
\<close>

type_synonym levels = "(real \<times> addr list) list"

record OrderBook =
  bids :: levels
  asks :: levels
  order_map :: "u64 \<rightharpoonup> addr"
  trade_history :: "Trade list"
  next_order_id :: u64
  total_orders_processed :: u64
  total_trades :: u64
  heap :: "addr \<rightharpoonup> Order"
  next_addr :: addr

text \<open>The comparators of the two maps, as declared in the class:
  \<^verbatim>\<open>std::map<double, ...> bids\<close> uses the default \<^verbatim>\<open>std::less<double>\<close>,
  \<^verbatim>\<open>std::map<double, ..., std::greater<double>> asks\<close> uses \<^verbatim>\<open>std::greater<double>\<close>.\<close>

definition std_less :: "real \<Rightarrow> real \<Rightarrow> bool" where
  "std_less a b = (a < b)"

definition std_greater :: "real \<Rightarrow> real \<Rightarrow> bool" where
  "std_greater a b = (a > b)"

definition bids_comp :: "real \<Rightarrow> real \<Rightarrow> bool" where
  "bids_comp = std_less"

definition asks_comp :: "real \<Rightarrow> real \<Rightarrow> bool" where
  "asks_comp = std_greater"

text \<open>\<^verbatim>\<open>m[k]\<close> followed by an in-place change \<open>f\<close> of the deque found there:
  \<^verbatim>\<open>operator[]\<close> inserts an empty deque when the key is absent.\<close>

fun map_modify :: "(real \<Rightarrow> real \<Rightarrow> bool) \<Rightarrow> real \<Rightarrow> (addr list \<Rightarrow> addr list) \<Rightarrow> levels \<Rightarrow> levels" where
  "map_modify lt k f [] = [(k, f [])]"
| "map_modify lt k f ((k', q) # m) =
     (if lt k k' then (k, f []) # (k', q) # m
      else if lt k' k then (k', q) # map_modify lt k f m
      else (k', f q) # m)"

text \<open>Reading the deque stored under a key.\<close>

fun map_at :: "(real \<Rightarrow> real \<Rightarrow> bool) \<Rightarrow> real \<Rightarrow> levels \<Rightarrow> addr list" where
  "map_at lt k [] = []"
| "map_at lt k ((k', q) # m) =
     (if lt k k' then [] else if lt k' k then map_at lt k m else q)"

text \<open>\<^verbatim>\<open>m.erase(k)\<close>.\<close>

fun map_erase :: "(real \<Rightarrow> real \<Rightarrow> bool) \<Rightarrow> real \<Rightarrow> levels \<Rightarrow> levels" where
  "map_erase lt k [] = []"
| "map_erase lt k ((k', q) # m) =
     (if lt k k' then (k', q) # m
      else if lt k' k then (k', q) # map_erase lt k m
      else m)"

definition empty_book :: OrderBook where
  "empty_book = \<lparr>bids = [], asks = [], order_map = Map.empty, trade_history = [],
     next_order_id = 1, total_orders_processed = 0, total_trades = 0,
     heap = Map.empty, next_addr = 0\<rparr>"

section \<open>Matching\<close>

text \<open>
  The four private matching routines share one loop shape.  They differ in the side
  of the book they consume (a buy consumes \<open>asks\<close>, a sell consumes \<open>bids\<close>), in
  the order of the two ids of an emitted trade, and in the price gate that only the
  limit routines have.  \<open>passive_side agg\<close> is the map consumed by an aggressor of side \<open>agg\<close>.
\<close>

fun passive_side :: "Side \<Rightarrow> OrderBook \<Rightarrow> levels" where
  "passive_side BUY s = asks s"
| "passive_side SELL s = bids s"

fun set_passive_side :: "Side \<Rightarrow> levels \<Rightarrow> OrderBook \<Rightarrow> OrderBook" where
  "set_passive_side BUY m s = s\<lparr>asks := m\<rparr>"
| "set_passive_side SELL m s = s\<lparr>bids := m\<rparr>"

text \<open>\<^verbatim>\<open>trade_history.emplace_back(...)\<close>: the buy id comes first.\<close>

fun make_trade :: "Side \<Rightarrow> Order \<Rightarrow> Order \<Rightarrow> real \<Rightarrow> u64 \<Rightarrow> Trade" where
  "make_trade BUY ord resting p q =
     \<lparr>buy_order_id = order_id ord, sell_order_id = order_id resting,
      trade_price = p, trade_quantity = q\<rparr>"
| "make_trade SELL ord resting p q =
     \<lparr>buy_order_id = order_id resting, sell_order_id = order_id ord,
      trade_price = p, trade_quantity = q\<rparr>"

text \<open>
  The inner loop \<^verbatim>\<open>while (!orders.empty() && order->quantity > 0)\<close> over the deque
  \<open>orders\<close> of the level with key \<open>p\<close>.  \<open>orders\<close> is a reference into the map in
  the source; here the deque is threaded through the loop and written back by the
  caller.  The incoming order is referenced only by the caller's local pointer while
  it is matched, so it is threaded by value.  An order that leaves both the deque and
  the index has no owner left and is released from the store.
\<close>

function match_level :: "Side \<Rightarrow> real \<Rightarrow> Order \<Rightarrow> addr list \<Rightarrow> OrderBook \<Rightarrow> Order \<times> addr list \<times> OrderBook" where
  "match_level agg p ord [] s = (ord, [], s)"
| "match_level agg p ord (a # orders) s =
     (if quantity ord = 0 then (ord, a # orders, s)
      else
        let resting = the (heap s a);
            trade_qty = min (quantity ord) (quantity resting);
            s1 = s\<lparr>trade_history := trade_history s @ [make_trade agg ord resting p trade_qty],
                   total_trades := total_trades s + 1\<rparr>;
            ord' = ord\<lparr>quantity := quantity ord - trade_qty\<rparr>;
            resting' = resting\<lparr>quantity := quantity resting - trade_qty\<rparr>
        in if quantity resting' = 0
           then match_level agg p ord' orders
                  (s1\<lparr>order_map := (order_map s1)(order_id resting' := None),
                      heap := (heap s1)(a := None)\<rparr>)
           else match_level agg p ord' (a # orders)
                  (s1\<lparr>heap := (heap s1)(a \<mapsto> resting')\<rparr>))"
  by pat_completeness auto

lemma min_sub_word:
  fixes x y :: u64
  assumes "x \<noteq> 0" "y - min x y \<noteq> 0"
  shows "unat (x - min x y) < unat x"
proof (cases "x \<le> y")
  case True
  then have "x - min x y = 0" by (simp add: min_def)
  with assms(1) show ?thesis by (simp add: unat_gt_0)
next
  case False
  then have "y - min x y = 0" by (simp add: min_def)
  with assms(2) show ?thesis by simp
qed

termination match_level
  by (relation "measures [\<lambda>(agg, p, ord, orders, s). length orders,
                          \<lambda>(agg, p, ord, orders, s). unat (quantity ord)]")
     (auto simp: min_sub_word)

declare match_level.simps(2) [simp del]

lemma match_level_zero:
  "quantity ord = 0 \<Longrightarrow> match_level agg p ord orders s = (ord, orders, s)"
  by (cases orders) (simp_all add: match_level.simps(2))

lemma match_level_done:
  "match_level agg p ord orders s = (ord', orders', s') \<Longrightarrow> orders' = [] \<or> quantity ord' = 0"
proof (induction agg p ord orders s rule: match_level.induct)
  case (1 agg p ord s)
  then show ?case by simp
next
  case (2 agg p ord a orders s)
  show ?case
  proof (cases "quantity ord = 0")
    case True
    with "2.prems" show ?thesis by (simp add: match_level_zero)
  next
    case False
    show ?thesis
      using False "2.prems" "2.IH"(1) [OF False refl refl refl refl refl]
        "2.IH"(2) [OF False refl refl refl refl refl]
      apply (subst (asm) match_level.simps(2))
      apply (simp add: Let_def split: if_splits)
      done
  qed
qed

text \<open>The price gate of the limit routines: \<^verbatim>\<open>if (order->price < best_ask) break;\<close> for a
  buy, \<^verbatim>\<open>if (order->price > best_bid) break;\<close> for a sell.\<close>

fun price_gate :: "Side \<Rightarrow> real \<Rightarrow> real \<Rightarrow> bool" where
  "price_gate BUY order_price best = (order_price < best)"
| "price_gate SELL order_price best = (order_price > best)"

text \<open>
  The outer loop \<^verbatim>\<open>while (!side.empty() && order->quantity > 0)\<close>.  The level
  \<^verbatim>\<open>*side.begin()\<close> is the head of the association list; \<open>gated\<close> says whether the
  routine has the price gate.  After the inner loop the level is erased when its deque
  has become empty.
\<close>

function match_loop :: "Side \<Rightarrow> bool \<Rightarrow> Order \<Rightarrow> OrderBook \<Rightarrow> Order \<times> OrderBook" where
  "match_loop agg gated ord s =
     (case passive_side agg s of
        [] \<Rightarrow> (ord, s)
      | (p, orders) # rest \<Rightarrow>
          if quantity ord = 0 then (ord, s)
          else if gated \<and> price_gate agg (price ord) p then (ord, s)
          else
            (case match_level agg p ord orders s of
               (ord', orders', s') \<Rightarrow>
                 match_loop agg gated ord'
                   (set_passive_side agg (if orders' = [] then rest else (p, orders') # rest) s')))"
  by pat_completeness auto

lemma passive_side_set [simp]: "passive_side agg (set_passive_side agg m s) = m"
  by (cases agg) simp_all

lemma match_level_done_sym:
  "(ord', orders', s') = match_level agg p ord orders s \<Longrightarrow> orders' \<noteq> [] \<Longrightarrow> quantity ord' = 0"
  using match_level_done [of agg p ord orders s ord' orders' s'] by simp

termination match_loop
  by (relation "measures [\<lambda>(agg, gated, ord, s). length (passive_side agg s),
                          \<lambda>(agg, gated, ord, s). unat (quantity ord)]")
     (auto simp: unat_gt_0 dest: match_level_done_sym)

declare match_loop.simps [simp del]

lemma match_loop_empty:
  "passive_side agg s = [] \<Longrightarrow> match_loop agg gated ord s = (ord, s)"
  by (subst match_loop.simps) simp

lemma match_loop_zero:
  "quantity ord = 0 \<Longrightarrow> match_loop agg gated ord s = (ord, s)"
  by (subst match_loop.simps) (simp split: list.splits)

lemma match_loop_gate:
  "passive_side agg s = (p, orders) # rest \<Longrightarrow> gated \<Longrightarrow> price_gate agg (price ord) p \<Longrightarrow>
   match_loop agg gated ord s = (ord, s)"
  by (subst match_loop.simps) simp

lemma match_loop_step:
  "passive_side agg s = (p, orders) # rest \<Longrightarrow> quantity ord \<noteq> 0 \<Longrightarrow>
   \<not> (gated \<and> price_gate agg (price ord) p) \<Longrightarrow>
   match_level agg p ord orders s = (ord', orders', s') \<Longrightarrow>
   match_loop agg gated ord s =
     match_loop agg gated ord'
       (set_passive_side agg (if orders' = [] then rest else (p, orders') # rest) s')"
  by (subst match_loop.simps) auto

definition matchMarketBuy :: "Order \<Rightarrow> OrderBook \<Rightarrow> Order \<times> OrderBook" where
  "matchMarketBuy order s = match_loop BUY False order s"

definition matchMarketSell :: "Order \<Rightarrow> OrderBook \<Rightarrow> Order \<times> OrderBook" where
  "matchMarketSell order s = match_loop SELL False order s"

text \<open>
  The limit routines rest what is left of the order: \<^verbatim>\<open>bids[order->price].push_back(order);
  order_map[order->order_id] = order;\<close>.  At this point the book takes its references to
  the object, which is placed in the store at a fresh address.
\<close>

definition matchLimitBuy :: "Order \<Rightarrow> OrderBook \<Rightarrow> Order \<times> OrderBook" where
  "matchLimitBuy order s =
     (case match_loop BUY True order s of
        (ord', s') \<Rightarrow>
          if quantity ord' > 0 then
            let a = next_addr s' in
            (ord', s'\<lparr>bids := map_modify bids_comp (price ord') (\<lambda>q. q @ [a]) (bids s'),
                      order_map := (order_map s')(order_id ord' \<mapsto> a),
                      heap := (heap s')(a \<mapsto> ord'),
                      next_addr := Suc a\<rparr>)
          else (ord', s'))"

definition matchLimitSell :: "Order \<Rightarrow> OrderBook \<Rightarrow> Order \<times> OrderBook" where
  "matchLimitSell order s =
     (case match_loop SELL True order s of
        (ord', s') \<Rightarrow>
          if quantity ord' > 0 then
            let a = next_addr s' in
            (ord', s'\<lparr>asks := map_modify asks_comp (price ord') (\<lambda>q. q @ [a]) (asks s'),
                      order_map := (order_map s')(order_id ord' \<mapsto> a),
                      heap := (heap s')(a \<mapsto> ord'),
                      next_addr := Suc a\<rparr>)
          else (ord', s'))"

section \<open>Public operations\<close>

text \<open>\<^verbatim>\<open>addOrder\<close> returns the id of the order; the model also returns the new book.\<close>

definition addOrder :: "Side \<Rightarrow> OrderType \<Rightarrow> real \<Rightarrow> u64 \<Rightarrow> OrderBook \<Rightarrow> u64 \<times> OrderBook" where
  "addOrder sd ty p q s =
     (let order = \<lparr>order_id = next_order_id s, side = sd, otype = ty, price = p, quantity = q\<rparr>;
          s1 = s\<lparr>next_order_id := next_order_id s + 1,
                 total_orders_processed := total_orders_processed s + 1\<rparr>;
          r = (if ty = MARKET then
                 (if sd = BUY then matchMarketBuy order s1 else matchMarketSell order s1)
               else
                 (if sd = BUY then matchLimitBuy order s1 else matchLimitSell order s1))
      in (order_id (fst r), snd r))"

definition cancelOrder :: "u64 \<Rightarrow> OrderBook \<Rightarrow> bool \<times> OrderBook" where
  "cancelOrder oid s =
     (case order_map s oid of
        None \<Rightarrow> (False, s)
      | Some a \<Rightarrow>
          let order = the (heap s a);
              s1 = (if side order = BUY then
                      let m = map_modify bids_comp (price order) (removeAll a) (bids s)
                      in s\<lparr>bids := (if map_at bids_comp (price order) m = []
                                     then map_erase bids_comp (price order) m else m)\<rparr>
                    else
                      let m = map_modify asks_comp (price order) (removeAll a) (asks s)
                      in s\<lparr>asks := (if map_at asks_comp (price order) m = []
                                     then map_erase asks_comp (price order) m else m)\<rparr>)
          in (True, s1\<lparr>order_map := (order_map s1)(oid := None),
                       heap := (heap s1)(a := None)\<rparr>))"

definition getBestBid :: "OrderBook \<Rightarrow> real" where
  "getBestBid s = (if bids s = [] then 0 else fst (hd (bids s)))"

definition getBestAsk :: "OrderBook \<Rightarrow> real" where
  "getBestAsk s = (if asks s = [] then 0 else fst (hd (asks s)))"

section \<open>Command sequences\<close>

datatype Command = Add Side OrderType real u64 | Cancel u64

fun exec :: "OrderBook \<Rightarrow> Command \<Rightarrow> OrderBook" where
  "exec s (Add sd ty p q) = snd (addOrder sd ty p q s)"
| "exec s (Cancel oid) = snd (cancelOrder oid s)"

definition run :: "Command list \<Rightarrow> OrderBook" where
  "run cs = foldl exec empty_book cs"

text \<open>The orders resting in the levels \<open>m\<close> of one side, in iteration order.\<close>

definition side_orders :: "OrderBook \<Rightarrow> levels \<Rightarrow> Order list" where
  "side_orders s m = concat (map (\<lambda>lv. map (\<lambda>a. the (heap s a)) (snd lv)) m)"

text \<open>The first scenario of \<^verbatim>\<open>main\<close>: five resting asks, then resting bids.\<close>

definition demo_book :: "Command list" where
  "demo_book =
     [Add SELL LIMIT 100.50 100, Add SELL LIMIT 100.60 150, Add SELL LIMIT 100.70 200,
      Add SELL LIMIT 100.80 175, Add SELL LIMIT 100.90 125,
      Add BUY LIMIT 100.40 120, Add BUY LIMIT 100.30 180]"

section \<open>Notions used in the statements and proofs\<close>

subsection \<open>Steps of the matching loops\<close>

text \<open>
  One iteration of the inner loop on the resting order at address \<open>a\<close>, the front of
  the level with key \<open>p\<close>, has one of two outcomes.  Either the resting order is
  filled completely and leaves the book (\<open>fill_step\<close>), or the incoming order is
  used up and the resting order stays with a smaller quantity (\<open>partial_step\<close>).
  \<open>front_level\<close> is the level written back after the inner loop.
\<close>

definition fill_step :: "Side \<Rightarrow> real \<Rightarrow> Order \<Rightarrow> addr \<Rightarrow> OrderBook \<Rightarrow> Order \<times> OrderBook" where
  "fill_step agg p ord a s =
     (ord\<lparr>quantity := quantity ord - quantity (the (heap s a))\<rparr>,
      s\<lparr>trade_history := trade_history s @ [make_trade agg ord (the (heap s a)) p (quantity (the (heap s a)))],
        total_trades := total_trades s + 1,
        order_map := (order_map s)(order_id (the (heap s a)) := None),
        heap := (heap s)(a := None)\<rparr>)"

definition partial_step :: "Side \<Rightarrow> real \<Rightarrow> Order \<Rightarrow> addr \<Rightarrow> OrderBook \<Rightarrow> Order \<times> OrderBook" where
  "partial_step agg p ord a s =
     (ord\<lparr>quantity := 0\<rparr>,
      s\<lparr>trade_history := trade_history s @ [make_trade agg ord (the (heap s a)) p (quantity ord)],
        total_trades := total_trades s + 1,
        heap := (heap s)(a \<mapsto> (the (heap s a))\<lparr>quantity := quantity (the (heap s a)) - quantity ord\<rparr>)\<rparr>)"

definition front_level :: "real \<Rightarrow> addr list \<Rightarrow> levels \<Rightarrow> levels" where
  "front_level p orders rest = (if orders = [] then rest else (p, orders) # rest)"

subsection \<open>The two sides\<close>

text \<open>The map in which an order of a side rests, the other side, and the comparator
  of the map of a side.\<close>

fun own_side :: "Side \<Rightarrow> OrderBook \<Rightarrow> levels" where
  "own_side BUY s = bids s"
| "own_side SELL s = asks s"

fun opposite :: "Side \<Rightarrow> Side" where
  "opposite BUY = SELL"
| "opposite SELL = BUY"

fun side_comp :: "Side \<Rightarrow> real \<Rightarrow> real \<Rightarrow> bool" where
  "side_comp BUY = bids_comp"
| "side_comp SELL = asks_comp"

subsection \<open>The invariant of the book\<close>

text \<open>
  \<open>book_addrs\<close> lists the addresses of the resting orders.  In a well-formed book
  each side is strictly sorted by its comparator and has no empty level; every resting
  order is allocated, has the side of its map, the price of its level and a non-zero
  quantity; no order rests twice; the store holds exactly the resting orders; and every
  entry of the index leads to an order with that id.
\<close>

definition side_addrs :: "levels \<Rightarrow> addr list" where
  "side_addrs m = concat (map snd m)"

definition book_addrs :: "OrderBook \<Rightarrow> addr list" where
  "book_addrs s = side_addrs (bids s) @ side_addrs (asks s)"

definition order_ok :: "(addr \<rightharpoonup> Order) \<Rightarrow> Side \<Rightarrow> real \<Rightarrow> addr \<Rightarrow> bool" where
  "order_ok h sd k a =
     (case h a of None \<Rightarrow> False
      | Some ord \<Rightarrow> side ord = sd \<and> price ord = k \<and> quantity ord \<noteq> 0)"

definition level_ok :: "(addr \<rightharpoonup> Order) \<Rightarrow> Side \<Rightarrow> real \<times> addr list \<Rightarrow> bool" where
  "level_ok h sd lv = (snd lv \<noteq> [] \<and> list_all (order_ok h sd (fst lv)) (snd lv))"

definition side_inv :: "(addr \<rightharpoonup> Order) \<Rightarrow> Side \<Rightarrow> levels \<Rightarrow> bool" where
  "side_inv h sd m = (sorted_wrt (side_comp sd) (map fst m) \<and> list_all (level_ok h sd) m)"

definition index_ok :: "OrderBook \<Rightarrow> bool" where
  "index_ok s = (\<forall>oid a. order_map s oid = Some a \<longrightarrow> map_option order_id (heap s a) = Some oid)"

definition wf_book :: "OrderBook \<Rightarrow> bool" where
  "wf_book s =
     (side_inv (heap s) BUY (bids s) \<and> side_inv (heap s) SELL (asks s) \<and>
      distinct (book_addrs s) \<and> dom (heap s) = set (book_addrs s) \<and>
      list_all (\<lambda>a. a < next_addr s) (book_addrs s) \<and> index_ok s)"

subsection \<open>Removing an order from a side\<close>

text \<open>Removing an order from the level of its price, as \<^verbatim>\<open>cancelOrder\<close> does with
  \<^verbatim>\<open>operator[]\<close>, \<^verbatim>\<open>std::remove\<close> and \<^verbatim>\<open>erase\<close>, in one pass.\<close>

fun remove_order :: "(real \<Rightarrow> real \<Rightarrow> bool) \<Rightarrow> real \<Rightarrow> addr \<Rightarrow> levels \<Rightarrow> levels" where
  "remove_order lt p a [] = []"
| "remove_order lt p a ((k, q) # m) =
     (if lt p k then (k, q) # m
      else if lt k p then (k, q) # remove_order lt p a m
      else if removeAll a q = [] then m else (k, removeAll a q) # m)"

text \<open>Deleting an address from every deque and dropping the levels that become empty.\<close>

definition delete_addr :: "addr \<Rightarrow> levels \<Rightarrow> levels" where
  "delete_addr a m = filter (\<lambda>lv. snd lv \<noteq> []) (map (\<lambda>lv. (fst lv, removeAll a (snd lv))) m)"

subsection \<open>Resting an order\<close>

fun set_own_side :: "Side \<Rightarrow> levels \<Rightarrow> OrderBook \<Rightarrow> OrderBook" where
  "set_own_side BUY m s = s\<lparr>bids := m\<rparr>"
| "set_own_side SELL m s = s\<lparr>asks := m\<rparr>"

text \<open>Resting an order on its own side, as the two limit routines do.\<close>

definition rest_order :: "Side \<Rightarrow> Order \<Rightarrow> OrderBook \<Rightarrow> OrderBook" where
  "rest_order sd ord s =
     (set_own_side sd (map_modify (side_comp sd) (price ord) (\<lambda>q. q @ [next_addr s]) (own_side sd s)) s)
       \<lparr>order_map := (order_map s)(order_id ord \<mapsto> next_addr s),
        heap := (heap s)(next_addr s \<mapsto> ord),
        next_addr := Suc (next_addr s)\<rparr>"

subsection \<open>Trades and the resting orders they fill\<close>

text \<open>
  For an incoming order of side \<open>agg\<close>, a trade names the incoming order on that side
  and the resting order on the other.  \<open>fills_resting agg s oid t\<close> says that the trade
  \<open>t\<close> names \<open>oid\<close> as the incoming order and some order resting on the opposite side
  of the book \<open>s\<close> as its counterparty, at the price of that resting order.
  \<open>same_orders\<close> relates a book during matching to the book before it.
\<close>

fun passive_id :: "Side \<Rightarrow> Trade \<Rightarrow> u64" where
  "passive_id BUY t = sell_order_id t"
| "passive_id SELL t = buy_order_id t"

fun aggressor_id :: "Side \<Rightarrow> Trade \<Rightarrow> u64" where
  "aggressor_id BUY t = buy_order_id t"
| "aggressor_id SELL t = sell_order_id t"

definition fills_resting :: "Side \<Rightarrow> OrderBook \<Rightarrow> u64 \<Rightarrow> Trade \<Rightarrow> bool" where
  "fills_resting agg s oid t =
     (\<exists>a \<in> set (side_addrs (passive_side agg s)).
        case heap s a of None \<Rightarrow> False
        | Some r \<Rightarrow> trade_price t = price r \<and> passive_id agg t = order_id r \<and>
                     aggressor_id agg t = oid)"

definition same_orders :: "Side \<Rightarrow> OrderBook \<Rightarrow> OrderBook \<Rightarrow> bool" where
  "same_orders agg s0 s =
     (\<forall>a \<in> set (side_addrs (passive_side agg s)).
        a \<in> set (side_addrs (passive_side agg s0)) \<and>
        (\<exists>r r0. heap s a = Some r \<and> heap s0 a = Some r0 \<and> price r = price r0 \<and>
                 order_id r = order_id r0))"

subsection \<open>The parts of addOrder\<close>

text \<open>What \<^verbatim>\<open>addOrder\<close> does, by kind and side, in terms of the shared loop.\<close>

definition new_order :: "Side \<Rightarrow> OrderType \<Rightarrow> real \<Rightarrow> u64 \<Rightarrow> OrderBook \<Rightarrow> Order" where
  "new_order sd ty p q s =
     \<lparr>order_id = next_order_id s, side = sd, otype = ty, price = p, quantity = q\<rparr>"

definition count_order :: "OrderBook \<Rightarrow> OrderBook" where
  "count_order s = s\<lparr>next_order_id := next_order_id s + 1,
                     total_orders_processed := total_orders_processed s + 1\<rparr>"

definition matched :: "Side \<Rightarrow> OrderType \<Rightarrow> real \<Rightarrow> u64 \<Rightarrow> OrderBook \<Rightarrow> Order \<times> OrderBook" where
  "matched sd ty p q s = match_loop sd (ty = LIMIT) (new_order sd ty p q s) (count_order s)"

subsection \<open>Counting orders\<close>

text \<open>The number of \<^verbatim>\<open>addOrder\<close> calls in a command sequence.\<close>

fun is_add :: "Command \<Rightarrow> bool" where
  "is_add (Add sd ty p q) = True"
| "is_add (Cancel oid) = False"

definition adds :: "Command list \<Rightarrow> nat" where
  "adds cs = length (filter is_add cs)"

subsection \<open>Quantities of an order id\<close>


text \<open>The remaining quantity that rests in the book under an order id.\<close>

definition qty_at :: "u64 \<Rightarrow> (addr \<rightharpoonup> Order) \<Rightarrow> addr \<Rightarrow> nat" where
  "qty_at oid h a =
     (case h a of None \<Rightarrow> 0
      | Some ord \<Rightarrow> if order_id ord = oid then unat (quantity ord) else 0)"

definition resting_qty :: "u64 \<Rightarrow> OrderBook \<Rightarrow> nat" where
  "resting_qty oid s = sum_list (map (qty_at oid (heap s)) (book_addrs s))"


text \<open>Every resting order has an id with the property \<open>P\<close>.\<close>

definition ids_sat :: "(u64 \<Rightarrow> bool) \<Rightarrow> OrderBook \<Rightarrow> bool" where
  "ids_sat P s = (\<forall>a \<in> set (book_addrs s). \<forall>r. heap s a = Some r \<longrightarrow> P (order_id r))"







section \<open>Evaluation of concrete command sequences\<close>

lemmas run_eval = run_def empty_book_def addOrder_def cancelOrder_def
  matchLimitBuy_def matchLimitSell_def matchMarketBuy_def matchMarketSell_def
  match_loop.simps match_level.simps(2) Let_def
  bids_comp_def asks_comp_def std_less_def std_greater_def
  getBestBid_def getBestAsk_def side_orders_def

section \<open>The matching loops as sequences of steps\<close>

text \<open>
  The inner loop either fills the front order and goes on with the rest of the deque,
  or ends with a partial fill.  From this follows a rule for both loops together: a
  property of the incoming order and the book that holds at the start and is kept by
  dropping an empty front level, by \<open>fill_step\<close> followed by the removal of the front
  order, and by \<open>partial_step\<close>, holds when \<open>match_loop\<close> returns.
\<close>

lemma match_level_fill:
  assumes "quantity ord \<noteq> 0" "quantity (the (heap s a)) \<le> quantity ord"
  shows "match_level agg p ord (a # orders) s =
           match_level agg p (fst (fill_step agg p ord a s)) orders (snd (fill_step agg p ord a s))"
  using assms by (subst match_level.simps(2)) (simp add: Let_def min_def fill_step_def)

lemma match_level_partial:
  assumes "quantity ord \<noteq> 0" "quantity ord < quantity (the (heap s a))"
  shows "match_level agg p ord (a # orders) s =
           (fst (partial_step agg p ord a s), a # orders, snd (partial_step agg p ord a s))"
  using assms by (subst match_level.simps(2)) (auto simp add: Let_def min_def partial_step_def match_level_zero)

lemma set_passive_side_same: "passive_side agg s = m \<Longrightarrow> set_passive_side agg m s = s"
  by (cases agg) auto

lemma set_passive_side_twice [simp]:
  "set_passive_side agg m (set_passive_side agg m' s) = set_passive_side agg m s"
  by (cases agg) auto

lemma fill_step_set_passive:
  "fill_step agg p ord a (set_passive_side agg m s) =
     (fst (fill_step agg p ord a s), set_passive_side agg m (snd (fill_step agg p ord a s)))"
  by (cases agg) (simp_all add: fill_step_def)

lemma partial_step_set_passive:
  "partial_step agg p ord a (set_passive_side agg m s) =
     (fst (partial_step agg p ord a s), set_passive_side agg m (snd (partial_step agg p ord a s)))"
  by (cases agg) (simp_all add: partial_step_def)

lemma match_level_rule:
  assumes fill: "\<And>ord s a orders. I ord (set_passive_side agg ((p, a # orders) # rest) s) \<Longrightarrow>
        quantity ord \<noteq> 0 \<Longrightarrow> quantity (the (heap s a)) \<le> quantity ord \<Longrightarrow>
        I (fst (fill_step agg p ord a s))
          (set_passive_side agg (front_level p orders rest) (snd (fill_step agg p ord a s)))"
    and part: "\<And>ord s a orders. I ord (set_passive_side agg ((p, a # orders) # rest) s) \<Longrightarrow>
        quantity ord \<noteq> 0 \<Longrightarrow> quantity ord < quantity (the (heap s a)) \<Longrightarrow>
        I (fst (partial_step agg p ord a s))
          (set_passive_side agg ((p, a # orders) # rest) (snd (partial_step agg p ord a s)))"
  shows "I ord (set_passive_side agg (front_level p orders rest) s) \<Longrightarrow>
         I (fst (match_level agg p ord orders s))
           (set_passive_side agg (front_level p (fst (snd (match_level agg p ord orders s))) rest)
              (snd (snd (match_level agg p ord orders s))))"
proof (induction orders arbitrary: ord s)
  case Nil
  then show ?case by simp
next
  case (Cons a orders)
  show ?case
  proof (cases "quantity ord = 0")
    case True
    with Cons.prems show ?thesis by (simp add: match_level_zero)
  next
    case nz: False
    from Cons.prems have I0: "I ord (set_passive_side agg ((p, a # orders) # rest) s)"
      by (simp add: front_level_def)
    show ?thesis
    proof (cases "quantity (the (heap s a)) \<le> quantity ord")
      case True
      from Cons.IH [OF fill [OF I0 nz True]] show ?thesis
        by (simp add: match_level_fill [OF nz True])
    next
      case False
      then have lt: "quantity ord < quantity (the (heap s a))" by simp
      from part [OF I0 nz lt] show ?thesis
        by (simp add: match_level_partial [OF nz lt] front_level_def)
    qed
  qed
qed

lemma match_loop_rule:
  assumes init: "I ord s"
    and drop: "\<And>ord s p rest. I ord s \<Longrightarrow> passive_side agg s = (p, []) # rest \<Longrightarrow>
        quantity ord \<noteq> 0 \<Longrightarrow> I ord (set_passive_side agg rest s)"
    and fill: "\<And>ord s p a orders rest. I ord s \<Longrightarrow> passive_side agg s = (p, a # orders) # rest \<Longrightarrow>
        quantity ord \<noteq> 0 \<Longrightarrow> quantity (the (heap s a)) \<le> quantity ord \<Longrightarrow>
        I (fst (fill_step agg p ord a s))
          (set_passive_side agg (front_level p orders rest) (snd (fill_step agg p ord a s)))"
    and part: "\<And>ord s p a orders rest. I ord s \<Longrightarrow> passive_side agg s = (p, a # orders) # rest \<Longrightarrow>
        quantity ord \<noteq> 0 \<Longrightarrow> quantity ord < quantity (the (heap s a)) \<Longrightarrow>
        I (fst (partial_step agg p ord a s)) (snd (partial_step agg p ord a s))"
  shows "I (fst (match_loop agg gated ord s)) (snd (match_loop agg gated ord s))"
  using init
proof (induction n \<equiv> "length (passive_side agg s)" arbitrary: ord s rule: less_induct)
  case less
  show ?case
  proof (cases "passive_side agg s")
    case Nil
    with less.prems show ?thesis by (simp add: match_loop_empty)
  next
    case (Cons lv rest)
    obtain p orders where lv: "lv = (p, orders)" by (cases lv)
    note ps = Cons [unfolded lv]
    show ?thesis
    proof (cases "quantity ord = 0 \<or> (gated \<and> price_gate agg (price ord) p)")
      case True
      with less.prems ps show ?thesis
        by (auto simp: match_loop_zero match_loop_gate [OF ps])
    next
      case False
      then have nz: "quantity ord \<noteq> 0" and ng: "\<not> (gated \<and> price_gate agg (price ord) p)"
        by auto
      obtain ord' orders' s' where ml: "match_level agg p ord orders s = (ord', orders', s')"
        by (cases "match_level agg p ord orders s")
      let ?s'' = "set_passive_side agg (front_level p orders' rest) s'"
      have step: "match_loop agg gated ord s = match_loop agg gated ord' ?s''"
        using match_loop_step [OF ps nz ng ml] by (simp add: front_level_def)
      have hvs: "\<And>m t. heap (set_passive_side agg m t) = heap t"
        by (cases agg) simp_all
      have I0: "I ord (set_passive_side agg (front_level p orders rest) s)"
      proof (cases "orders = []")
        case True
        with drop [OF less.prems _ nz, of p rest] ps show ?thesis
          by (simp add: front_level_def)
      next
        case False
        with less.prems ps show ?thesis
          by (simp add: front_level_def set_passive_side_same)
      qed
      have "I (fst (match_level agg p ord orders s))
           (set_passive_side agg (front_level p (fst (snd (match_level agg p ord orders s))) rest)
              (snd (snd (match_level agg p ord orders s))))"
      proof (rule match_level_rule [where I = I, OF _ _ I0], goal_cases)
        case (1 ord s a orders)
        from fill [OF 1(1) _ 1(2), of p a orders rest] 1(3)
        show ?case by (simp add: hvs fill_step_set_passive)
      next
        case (2 ord s a orders)
        from part [OF 2(1) _ 2(2), of p a orders rest] 2(3)
        show ?case by (simp add: hvs partial_step_set_passive)
      qed
      with ml have I': "I ord' ?s''" by simp
      from match_level_done [OF ml] show ?thesis
      proof
        assume "orders' = []"
        then have "length (passive_side agg ?s'') < length (passive_side agg s)"
          using ps by (simp add: front_level_def)
        from less.hyps [OF this I'] show ?thesis by (simp add: step)
      next
        assume "quantity ord' = 0"
        with I' show ?thesis by (simp add: step match_loop_zero)
      qed
    qed
  qed
qed

lemma wf_book_empty: "wf_book empty_book"
  by (simp add: wf_book_def empty_book_def side_inv_def book_addrs_def side_addrs_def index_ok_def)

section \<open>The book invariant under the steps of the loops\<close>

lemma own_side_set_passive [simp]: "own_side agg (set_passive_side agg m s) = own_side agg s"
  by (cases agg) simp_all

lemma set_passive_side_fields [simp]:
  "heap (set_passive_side agg m s) = heap s"
  "order_map (set_passive_side agg m s) = order_map s"
  "trade_history (set_passive_side agg m s) = trade_history s"
  "next_order_id (set_passive_side agg m s) = next_order_id s"
  "next_addr (set_passive_side agg m s) = next_addr s"
  "total_orders_processed (set_passive_side agg m s) = total_orders_processed s"
  "total_trades (set_passive_side agg m s) = total_trades s"
  by (cases agg; simp)+

lemma fill_step_fields [simp]:
  "heap (snd (fill_step agg p ord a s)) = (heap s)(a := None)"
  "order_map (snd (fill_step agg p ord a s)) = (order_map s)(order_id (the (heap s a)) := None)"
  "trade_history (snd (fill_step agg p ord a s)) =
     trade_history s @ [make_trade agg ord (the (heap s a)) p (quantity (the (heap s a)))]"
  "next_order_id (snd (fill_step agg p ord a s)) = next_order_id s"
  "next_addr (snd (fill_step agg p ord a s)) = next_addr s"
  "total_orders_processed (snd (fill_step agg p ord a s)) = total_orders_processed s"
  "bids (snd (fill_step agg p ord a s)) = bids s"
  "asks (snd (fill_step agg p ord a s)) = asks s"
  "fst (fill_step agg p ord a s) = ord\<lparr>quantity := quantity ord - quantity (the (heap s a))\<rparr>"
  by (simp_all add: fill_step_def)

lemma partial_step_fields [simp]:
  "heap (snd (partial_step agg p ord a s)) =
     (heap s)(a \<mapsto> (the (heap s a))\<lparr>quantity := quantity (the (heap s a)) - quantity ord\<rparr>)"
  "order_map (snd (partial_step agg p ord a s)) = order_map s"
  "trade_history (snd (partial_step agg p ord a s)) =
     trade_history s @ [make_trade agg ord (the (heap s a)) p (quantity ord)]"
  "next_order_id (snd (partial_step agg p ord a s)) = next_order_id s"
  "next_addr (snd (partial_step agg p ord a s)) = next_addr s"
  "total_orders_processed (snd (partial_step agg p ord a s)) = total_orders_processed s"
  "bids (snd (partial_step agg p ord a s)) = bids s"
  "asks (snd (partial_step agg p ord a s)) = asks s"
  "fst (partial_step agg p ord a s) = ord\<lparr>quantity := 0\<rparr>"
  by (simp_all add: partial_step_def)

lemma own_side_steps [simp]:
  "own_side sd (snd (fill_step agg p ord a s)) = own_side sd s"
  "own_side sd (snd (partial_step agg p ord a s)) = own_side sd s"
  by (cases sd; simp)+

lemma passive_side_steps [simp]:
  "passive_side sd (snd (fill_step agg p ord a s)) = passive_side sd s"
  "passive_side sd (snd (partial_step agg p ord a s)) = passive_side sd s"
  by (cases sd; simp)+

text \<open>The invariant seen from an aggressor's side.\<close>

lemma book_addrs_agg:
  "set (book_addrs s) = set (side_addrs (passive_side agg s)) \<union> set (side_addrs (own_side agg s))"
  by (cases agg) (auto simp: book_addrs_def)

lemma distinct_book_addrs_agg:
  "distinct (book_addrs s) \<longleftrightarrow>
     distinct (side_addrs (passive_side agg s)) \<and> distinct (side_addrs (own_side agg s)) \<and>
     set (side_addrs (passive_side agg s)) \<inter> set (side_addrs (own_side agg s)) = {}"
  by (cases agg) (auto simp: book_addrs_def)

lemma wf_book_agg:
  "wf_book s \<longleftrightarrow>
     side_inv (heap s) (opposite agg) (passive_side agg s) \<and>
     side_inv (heap s) agg (own_side agg s) \<and>
     distinct (side_addrs (passive_side agg s)) \<and> distinct (side_addrs (own_side agg s)) \<and>
     set (side_addrs (passive_side agg s)) \<inter> set (side_addrs (own_side agg s)) = {} \<and>
     dom (heap s) = set (side_addrs (passive_side agg s)) \<union> set (side_addrs (own_side agg s)) \<and>
     (\<forall>a \<in> dom (heap s). a < next_addr s) \<and> index_ok s"
  unfolding wf_book_def distinct_book_addrs_agg [of s agg] book_addrs_agg [of s agg] list_all_iff
  by (cases agg) auto

lemma side_inv_heap_cong:
  "\<forall>a \<in> set (side_addrs m). h' a = h a \<Longrightarrow> side_inv h' sd m = side_inv h sd m"
  by (induction m) (auto simp: side_inv_def level_ok_def order_ok_def side_addrs_def list_all_iff)

lemma side_inv_pop:
  "side_inv h sd ((p, a # orders) # rest) \<Longrightarrow> side_inv h sd (front_level p orders rest)"
  by (auto simp: side_inv_def front_level_def level_ok_def)

lemma side_addrs_Cons [simp]: "side_addrs ((p, q) # m) = q @ side_addrs m"
  by (simp add: side_addrs_def)

lemma side_addrs_Nil [simp]: "side_addrs [] = []"
  by (simp add: side_addrs_def)

lemma side_addrs_front_level [simp]: "side_addrs (front_level p orders rest) = orders @ side_addrs rest"
  by (simp add: front_level_def)

lemma side_inv_front_order:
  "side_inv h sd ((p, a # orders) # rest) \<Longrightarrow>
   \<exists>ord. h a = Some ord \<and> side ord = sd \<and> price ord = p \<and> quantity ord \<noteq> 0"
  by (auto simp: side_inv_def level_ok_def order_ok_def split: option.splits)

lemma wf_book_fill:
  assumes wf: "wf_book s" and ps: "passive_side agg s = (p, a # orders) # rest"
  shows "wf_book (set_passive_side agg (front_level p orders rest) (snd (fill_step agg p ord a s)))"
proof -
  let ?s' = "set_passive_side agg (front_level p orders rest) (snd (fill_step agg p ord a s))"
  note w = wf [unfolded wf_book_agg [of s agg] ps]
  from w have a_notin: "a \<notin> set orders" "a \<notin> set (side_addrs rest)" "a \<notin> set (side_addrs (own_side agg s))"
    by auto
  obtain r where r: "heap s a = Some r"
    using side_inv_front_order w by blast
  have 1: "side_inv (heap ?s') (opposite agg) (passive_side agg ?s')"
  proof -
    have "side_inv (heap s) (opposite agg) (front_level p orders rest)"
      using w side_inv_pop by blast
    moreover have "\<forall>x \<in> set (side_addrs (front_level p orders rest)). heap ?s' x = heap s x"
      using a_notin by auto
    ultimately show ?thesis
      using side_inv_heap_cong [of "front_level p orders rest" "heap ?s'" "heap s" "opposite agg"]
      by simp
  qed
  have 2: "side_inv (heap ?s') agg (own_side agg ?s')"
  proof -
    have "\<forall>x \<in> set (side_addrs (own_side agg s)). heap ?s' x = heap s x"
      using a_notin by auto
    with w show ?thesis using side_inv_heap_cong [of "own_side agg s" "heap ?s'" "heap s" agg]
      by simp
  qed
  have 3: "index_ok ?s'"
    unfolding index_ok_def
  proof (intro allI impI)
    fix oid b
    assume "order_map ?s' oid = Some b"
    then have om: "order_map s oid = Some b" by (simp split: if_splits)
    with w have hb: "map_option order_id (heap s b) = Some oid" by (simp add: index_ok_def)
    with r om show "map_option order_id (heap ?s' b) = Some oid"
      using \<open>order_map ?s' oid = Some b\<close> by (auto split: if_splits)
  qed
  show ?thesis
    unfolding wf_book_agg [of ?s' agg]
    using 1 2 3 w a_notin by (auto simp: r)
qed

lemma wf_book_partial:
  assumes wf: "wf_book s" and ps: "passive_side agg s = (p, a # orders) # rest"
    and lt: "quantity ord < quantity (the (heap s a))"
  shows "wf_book (snd (partial_step agg p ord a s))"
proof -
  let ?s' = "snd (partial_step agg p ord a s)"
  note w = wf [unfolded wf_book_agg [of s agg] ps]
  obtain r where r: "heap s a = Some r" "side r = opposite agg" "price r = p"
    using side_inv_front_order w by blast
  from lt r have nz: "quantity r - quantity ord \<noteq> 0" by auto
  from w have a_notin: "a \<notin> set (side_addrs (own_side agg s))"
    by auto
  have 1: "side_inv (heap ?s') (opposite agg) (passive_side agg ?s')"
    using w r nz
    by (auto simp: ps side_inv_def level_ok_def order_ok_def list_all_iff split: option.splits)
  have 2: "side_inv (heap ?s') agg (own_side agg ?s')"
  proof -
    have "\<forall>x \<in> set (side_addrs (own_side agg s)). heap ?s' x = heap s x"
      using a_notin by auto
    with w show ?thesis using side_inv_heap_cong [of "own_side agg s" "heap ?s'" "heap s" agg]
      by simp
  qed
  have 3: "index_ok ?s'"
    unfolding index_ok_def
  proof (intro allI impI)
    fix oid b
    assume "order_map ?s' oid = Some b"
    then have om: "order_map s oid = Some b" by (simp split: if_splits)
    with w have hb: "map_option order_id (heap s b) = Some oid" by (simp add: index_ok_def)
    with r om show "map_option order_id (heap ?s' b) = Some oid"
      using \<open>order_map ?s' oid = Some b\<close> by (auto split: if_splits)
  qed
  show ?thesis
    unfolding wf_book_agg [of ?s' agg]
    using 1 2 3 w by (auto simp: r ps)
qed

lemma wf_book_no_empty_level:
  "wf_book s \<Longrightarrow> passive_side agg s \<noteq> (p, []) # rest"
  by (cases agg) (auto simp: wf_book_def side_inv_def level_ok_def)

lemma wf_book_match_loop:
  assumes "wf_book s"
  shows "wf_book (snd (match_loop agg gated ord s))"
  using assms
  by (rule match_loop_rule [where I = "\<lambda>ord s. wf_book s"])
     (auto simp: wf_book_no_empty_level intro: wf_book_fill wf_book_partial)

section \<open>Operations on the price-level maps\<close>

lemma side_comp_irrefl [simp]: "\<not> side_comp sd x x"
  by (cases sd) (simp_all add: bids_comp_def asks_comp_def std_less_def std_greater_def)

lemma side_comp_trans: "side_comp sd x y \<Longrightarrow> side_comp sd y z \<Longrightarrow> side_comp sd x z"
  by (cases sd) (simp_all add: bids_comp_def asks_comp_def std_less_def std_greater_def)

lemma side_comp_asym: "side_comp sd x y \<Longrightarrow> \<not> side_comp sd y x"
  by (cases sd) (simp_all add: bids_comp_def asks_comp_def std_less_def std_greater_def)

lemma side_comp_total: "\<not> side_comp sd x y \<Longrightarrow> \<not> side_comp sd y x \<Longrightarrow> x = y"
  by (cases sd) (simp_all add: bids_comp_def asks_comp_def std_less_def std_greater_def)

text \<open>Appending an order to the level of its price.\<close>

lemma keys_map_modify:
  "fst ` set (map_modify (side_comp sd) p f m) = insert p (fst ` set m)"
proof (induction m)
  case Nil
  show ?case by simp
next
  case (Cons lv m)
  obtain k q where lv: "lv = (k, q)" by (cases lv)
  show ?case
  proof (cases "side_comp sd p k")
    case True
    then show ?thesis by (simp add: lv)
  next
    case nlt: False
    show ?thesis
    proof (cases "side_comp sd k p")
      case True
      with nlt Cons.IH show ?thesis by (simp add: lv insert_commute)
    next
      case False
      with nlt have "p = k" by (rule side_comp_total)
      with nlt False show ?thesis by (simp add: lv)
    qed
  qed
qed

lemma sorted_map_modify:
  "sorted_wrt (side_comp sd) (map fst m) \<Longrightarrow>
   sorted_wrt (side_comp sd) (map fst (map_modify (side_comp sd) p f m))"
proof (induction m)
  case Nil
  then show ?case by simp
next
  case (Cons lv m)
  obtain k q where lv: "lv = (k, q)" by (cases lv)
  from Cons.prems have s: "\<forall>x \<in> set (map fst m). side_comp sd k x" and sm: "sorted_wrt (side_comp sd) (map fst m)"
    by (simp_all add: lv)
  show ?case
  proof (cases "side_comp sd p k")
    case True
    with s have "\<forall>x \<in> set (map fst m). side_comp sd p x"
      by (blast intro: side_comp_trans)
    with True Cons.prems show ?thesis by (simp add: lv)
  next
    case nlt: False
    show ?thesis
    proof (cases "side_comp sd k p")
      case True
      have "\<forall>x \<in> set (map fst (map_modify (side_comp sd) p f m)). side_comp sd k x"
        using s True by (auto simp: keys_map_modify)
      with nlt True Cons.IH [OF sm] show ?thesis by (simp add: lv)
    next
      case False
      with nlt Cons.prems show ?thesis by (simp add: lv)
    qed
  qed
qed

lemma side_addrs_map_modify_push:
  "set (side_addrs (map_modify lt p (\<lambda>q. q @ [a]) m)) = insert a (set (side_addrs m))"
  by (induction m) (auto split: if_splits)

lemma level_map_modify_push:
  "\<exists>lv \<in> set (map_modify (side_comp sd) p (\<lambda>q. q @ [a]) m).
     fst lv = p \<and> a \<in> set (snd lv) \<and> last (snd lv) = a"
proof (induction m)
  case Nil
  show ?case by simp
next
  case (Cons lv m)
  obtain k q where lv: "lv = (k, q)" by (cases lv)
  show ?case
  proof (cases "side_comp sd p k")
    case True
    then show ?thesis by (simp add: lv)
  next
    case nlt: False
    show ?thesis
    proof (cases "side_comp sd k p")
      case True
      with nlt Cons.IH show ?thesis by (simp add: lv)
    next
      case False
      with nlt have "p = k" by (rule side_comp_total)
      with nlt False show ?thesis by (simp add: lv)
    qed
  qed
qed

lemma distinct_map_modify_push:
  "distinct (side_addrs m) \<Longrightarrow> a \<notin> set (side_addrs m) \<Longrightarrow>
   distinct (side_addrs (map_modify lt p (\<lambda>q. q @ [a]) m))"
  by (induction m) (auto simp: side_addrs_map_modify_push)

lemma level_ok_heap_cong:
  "\<forall>b \<in> set (snd lv). h' b = h b \<Longrightarrow> level_ok h' sd lv = level_ok h sd lv"
  by (auto simp: level_ok_def order_ok_def list_all_iff)

lemma levels_ok_heap_cong:
  "\<forall>b \<in> set (side_addrs m). h' b = h b \<Longrightarrow>
   list_all (level_ok h' sd) m = list_all (level_ok h sd) m"
  unfolding list_all_iff side_addrs_def
  by (auto simp: level_ok_heap_cong [of _ h' h] cong: level_ok_heap_cong)

lemma levels_ok_map_modify_push:
  assumes "list_all (level_ok h sd) m" "a \<notin> set (side_addrs m)"
    "side ord = sd" "price ord = p" "quantity ord \<noteq> 0"
    and h': "h' a = Some ord" "\<forall>b. b \<noteq> a \<longrightarrow> h' b = h b"
  shows "list_all (level_ok h' sd) (map_modify (side_comp sd) p (\<lambda>q. q @ [a]) m)"
  using assms(1,2)
proof (induction m)
  case Nil
  with assms(3-) show ?case by (simp add: level_ok_def order_ok_def)
next
  case (Cons lv m)
  obtain k q where lv: "lv = (k, q)" by (cases lv)
  from Cons.prems have a: "a \<notin> set q" "a \<notin> set (side_addrs m)" by (simp_all add: lv)
  from Cons.prems have ok: "level_ok h sd (k, q)" "list_all (level_ok h sd) m" by (simp_all add: lv)
  have "level_ok h' sd (k, q) = level_ok h sd (k, q)"
    by (rule level_ok_heap_cong) (use a h' in auto)
  moreover have "list_all (level_ok h' sd) m = list_all (level_ok h sd) m"
    by (rule levels_ok_heap_cong) (use a h' in auto)
  ultimately have ok': "level_ok h' sd (k, q)" "list_all (level_ok h' sd) m"
    using ok by simp_all
  have new: "level_ok h' sd (p, [a])"
    using assms(3-) by (simp add: level_ok_def order_ok_def)
  show ?case
  proof (cases "side_comp sd p k")
    case True
    with ok' new show ?thesis by (simp add: lv)
  next
    case nlt: False
    show ?thesis
    proof (cases "side_comp sd k p")
      case True
      with nlt ok' Cons.IH [OF ok(2) a(2)] show ?thesis by (simp add: lv)
    next
      case False
      with nlt have pk: "p = k" by (rule side_comp_total)
      have "level_ok h' sd (k, q @ [a])"
        using ok'(1) new pk by (simp add: level_ok_def)
      with ok' nlt False show ?thesis
        by (simp add: lv)
    qed
  qed
qed

lemma side_inv_map_modify_push:
  assumes "side_inv h sd m" "a \<notin> set (side_addrs m)"
    "side ord = sd" "price ord = p" "quantity ord \<noteq> 0"
  shows "side_inv (h(a \<mapsto> ord)) sd (map_modify (side_comp sd) p (\<lambda>q. q @ [a]) m)"
  using assms unfolding side_inv_def
  by (auto intro: sorted_map_modify levels_ok_map_modify_push)

lemma remove_order_eq:
  "\<not> lt p p \<Longrightarrow>
   (if map_at lt p (map_modify lt p (removeAll a) m) = []
    then map_erase lt p (map_modify lt p (removeAll a) m)
    else map_modify lt p (removeAll a) m) = remove_order lt p a m"
  by (induction m) (auto split: if_splits)


lemma keys_remove_order:
  "x \<in> set (remove_order lt p a m) \<Longrightarrow> \<exists>y \<in> set m. fst y = fst x"
  by (induction m) (auto split: if_splits)

lemma sorted_remove_order:
  "sorted_wrt lt (map fst m) \<Longrightarrow> sorted_wrt lt (map fst (remove_order lt p a m))"
proof (induction m)
  case Nil
  then show ?case by simp
next
  case (Cons lv m)
  obtain k q where lv: "lv = (k, q)" by (cases lv)
  from Cons.prems have s: "\<forall>y \<in> set m. lt k (fst y)" and sm: "sorted_wrt lt (map fst m)"
    by (simp_all add: lv)
  have "\<forall>x \<in> set (remove_order lt p a m). lt k (fst x)"
    using s keys_remove_order [of _ lt p a m] by metis
  with s sm Cons.IH [OF sm] show ?case
    by (simp add: lv)
qed

lemma side_inv_order:
  assumes "side_inv h sd m" "lv \<in> set m" "a \<in> set (snd lv)" "h a = Some ord"
  shows "side ord = sd \<and> price ord = fst lv \<and> quantity ord \<noteq> 0"
proof -
  from assms(1,2) have "level_ok h sd lv" by (simp add: side_inv_def list_all_iff)
  with assms(3) have "order_ok h sd (fst lv) a" by (simp add: level_ok_def list_all_iff)
  with assms(4) show ?thesis by (simp add: order_ok_def)
qed

lemma removeAll_Nil_iff: "removeAll a q = [] \<longleftrightarrow> set q \<subseteq> {a}"
  by (induction q) auto

lemma remove_order_addrs:
  assumes "side_inv h sd m" "distinct (side_addrs m)" "a \<in> set (side_addrs m)"
    "h a = Some ord" "price ord = p"
  shows "set (side_addrs (remove_order (side_comp sd) p a m)) = set (side_addrs m) - {a}
       \<and> distinct (side_addrs (remove_order (side_comp sd) p a m))
       \<and> list_all (level_ok h sd) (remove_order (side_comp sd) p a m)"
  using assms(1-3)
proof (induction m)
  case Nil
  then show ?case by simp
next
  case (Cons lv m)
  obtain k q where lv: "lv = (k, q)" by (cases lv)
  from Cons.prems(1) have inv_m: "side_inv h sd m" and okq: "level_ok h sd (k, q)"
    and keys: "\<forall>x \<in> set (map fst m). side_comp sd k x"
    by (simp_all add: side_inv_def lv)
  from Cons.prems(2) have d: "distinct q" "distinct (side_addrs m)" "set q \<inter> set (side_addrs m) = {}"
    by (simp_all add: lv)
  show ?case
  proof (cases "a \<in> set q")
    case True
    with okq assms(4,5) have "k = p"
      by (auto simp: level_ok_def order_ok_def list_all_iff)
    moreover have "a \<notin> set (side_addrs m)" using True d by auto
    moreover have "list_all (level_ok h sd) m" using inv_m by (simp add: side_inv_def)
    moreover have "removeAll a q \<noteq> [] \<Longrightarrow> level_ok h sd (k, removeAll a q)"
      using okq by (auto simp: level_ok_def list_all_iff)
    ultimately show ?thesis using d True
      by (auto simp: lv distinct_removeAll removeAll_Nil_iff)
  next
    case False
    with Cons.prems(3) have am: "a \<in> set (side_addrs m)" by (simp add: lv)
    then obtain lv' where lv': "lv' \<in> set m" "a \<in> set (snd lv')"
      by (auto simp: side_addrs_def)
    then have "fst lv' = p"
      using side_inv_order [OF inv_m lv'(1) lv'(2) assms(4)] assms(5) by simp
    with lv' keys have kp: "side_comp sd k p" by auto
    then have nlt: "\<not> side_comp sd p k" by (rule side_comp_asym)
    from Cons.IH [OF inv_m d(2) am] kp nlt False okq d show ?thesis
      by (auto simp: lv)
  qed
qed

lemma side_inv_remove_order:
  assumes "side_inv h sd m" "distinct (side_addrs m)" "a \<in> set (side_addrs m)"
    "h a = Some ord" "price ord = p"
  shows "side_inv (h(a := None)) sd (remove_order (side_comp sd) p a m)"
proof -
  from remove_order_addrs [OF assms]
  have "a \<notin> set (side_addrs (remove_order (side_comp sd) p a m))"
    and "list_all (level_ok h sd) (remove_order (side_comp sd) p a m)" by auto
  then have "list_all (level_ok (h(a := None)) sd) (remove_order (side_comp sd) p a m)"
    using levels_ok_heap_cong [of "remove_order (side_comp sd) p a m" "h(a := None)" h sd]
    by auto
  with assms(1) show ?thesis
    by (simp add: side_inv_def sorted_remove_order)
qed

lemma delete_addr_absent:
  "a \<notin> set (side_addrs m) \<Longrightarrow> \<forall>lv \<in> set m. snd lv \<noteq> [] \<Longrightarrow> delete_addr a m = m"
  by (induction m) (auto simp: delete_addr_def)

lemma remove_order_delete:
  assumes "side_inv h sd m" "distinct (side_addrs m)" "a \<in> set (side_addrs m)"
    "h a = Some ord" "price ord = p"
  shows "remove_order (side_comp sd) p a m = delete_addr a m"
  using assms(1-3)
proof (induction m)
  case Nil
  then show ?case by simp
next
  case (Cons lv m)
  obtain k q where lv: "lv = (k, q)" by (cases lv)
  from Cons.prems(1) have inv_m: "side_inv h sd m" and okq: "level_ok h sd (k, q)"
    and keys: "\<forall>x \<in> set (map fst m). side_comp sd k x"
    by (simp_all add: side_inv_def lv)
  from Cons.prems(2) have d: "distinct q" "distinct (side_addrs m)" "set q \<inter> set (side_addrs m) = {}"
    by (simp_all add: lv)
  from okq have qne: "q \<noteq> []" by (simp add: level_ok_def)
  from inv_m have ne: "\<forall>lv \<in> set m. snd lv \<noteq> []"
    by (auto simp: side_inv_def level_ok_def list_all_iff)
  show ?case
  proof (cases "a \<in> set q")
    case True
    with okq assms(4,5) have "k = p"
      by (auto simp: level_ok_def order_ok_def list_all_iff)
    moreover have "a \<notin> set (side_addrs m)" using True d by auto
    then have "delete_addr a m = m" using ne by (rule delete_addr_absent)
    then have "delete_addr a ((k, q) # m) = (if removeAll a q = [] then m else (k, removeAll a q) # m)"
      by (simp add: delete_addr_def)
    ultimately show ?thesis by (simp add: lv)
  next
    case False
    with Cons.prems(3) have am: "a \<in> set (side_addrs m)" by (simp add: lv)
    then obtain lv' where lv': "lv' \<in> set m" "a \<in> set (snd lv')"
      by (auto simp: side_addrs_def)
    then have "fst lv' = p"
      using side_inv_order [OF inv_m lv'(1) lv'(2) assms(4)] assms(5) by simp
    with lv' keys have kp: "side_comp sd k p" by auto
    then have nlt: "\<not> side_comp sd p k" by (rule side_comp_asym)
    from False qne have "delete_addr a ((k, q) # m) = (k, q) # delete_addr a m"
      by (simp add: delete_addr_def)
    with Cons.IH [OF inv_m d(2) am] kp nlt show ?thesis
      by (simp add: lv)
  qed
qed

section \<open>Resting and cancelling preserve the invariant\<close>

lemma set_own_side_fields [simp]:
  "heap (set_own_side sd m s) = heap s"
  "order_map (set_own_side sd m s) = order_map s"
  "trade_history (set_own_side sd m s) = trade_history s"
  "next_order_id (set_own_side sd m s) = next_order_id s"
  "next_addr (set_own_side sd m s) = next_addr s"
  "total_orders_processed (set_own_side sd m s) = total_orders_processed s"
  "total_trades (set_own_side sd m s) = total_trades s"
  "own_side sd (set_own_side sd m s) = m"
  "passive_side sd (set_own_side sd m s) = passive_side sd s"
  by (cases sd; simp)+

lemma side_fields_upd [simp]:
  "own_side sd (s\<lparr>order_map := om\<rparr>) = own_side sd s"
  "own_side sd (s\<lparr>heap := h\<rparr>) = own_side sd s"
  "own_side sd (s\<lparr>next_addr := n\<rparr>) = own_side sd s"
  "own_side sd (s\<lparr>next_order_id := i\<rparr>) = own_side sd s"
  "own_side sd (s\<lparr>total_orders_processed := c\<rparr>) = own_side sd s"
  "passive_side sd (s\<lparr>order_map := om\<rparr>) = passive_side sd s"
  "passive_side sd (s\<lparr>heap := h\<rparr>) = passive_side sd s"
  "passive_side sd (s\<lparr>next_addr := n\<rparr>) = passive_side sd s"
  "passive_side sd (s\<lparr>next_order_id := i\<rparr>) = passive_side sd s"
  "passive_side sd (s\<lparr>total_orders_processed := c\<rparr>) = passive_side sd s"
  by (cases sd; simp)+

lemma matchLimitBuy_rest:
  "matchLimitBuy ord s =
     (if quantity (fst (match_loop BUY True ord s)) \<noteq> 0
      then (fst (match_loop BUY True ord s),
            rest_order BUY (fst (match_loop BUY True ord s)) (snd (match_loop BUY True ord s)))
      else match_loop BUY True ord s)"
  by (simp add: matchLimitBuy_def rest_order_def Let_def split: prod.splits) (auto simp: word_gt_0)

lemma matchLimitSell_rest:
  "matchLimitSell ord s =
     (if quantity (fst (match_loop SELL True ord s)) \<noteq> 0
      then (fst (match_loop SELL True ord s),
            rest_order SELL (fst (match_loop SELL True ord s)) (snd (match_loop SELL True ord s)))
      else match_loop SELL True ord s)"
  by (simp add: matchLimitSell_def rest_order_def Let_def split: prod.splits) (auto simp: word_gt_0)

lemma wf_book_rest:
  assumes wf: "wf_book s" and sd: "side ord = sd" and nz: "quantity ord \<noteq> 0"
  shows "wf_book (rest_order sd ord s)"
proof -
  let ?a = "next_addr s"
  let ?s' = "rest_order sd ord s"
  note w = wf [unfolded wf_book_agg [of s sd]]
  from w have fresh: "?a \<notin> dom (heap s)" by auto
  with w have f1: "?a \<notin> set (side_addrs (passive_side sd s))" and f2: "?a \<notin> set (side_addrs (own_side sd s))"
    by auto
  have h: "heap ?s' = (heap s)(?a \<mapsto> ord)" by (simp add: rest_order_def)
  have ps: "passive_side sd ?s' = passive_side sd s" by (simp add: rest_order_def)
  have os: "own_side sd ?s' = map_modify (side_comp sd) (price ord) (\<lambda>q. q @ [?a]) (own_side sd s)"
    by (simp add: rest_order_def)
  have 1: "side_inv (heap ?s') (opposite sd) (passive_side sd ?s')"
    using side_inv_heap_cong [of "passive_side sd s" "heap ?s'" "heap s" "opposite sd"] f1 w
    by (auto simp: h ps)
  have 2: "side_inv (heap ?s') sd (own_side sd ?s')"
    unfolding h os using w f2 sd nz by (intro side_inv_map_modify_push) auto
  have 3: "index_ok ?s'"
    unfolding index_ok_def
  proof (intro allI impI)
    fix oid b
    assume om': "order_map ?s' oid = Some b"
    show "map_option order_id (heap ?s' b) = Some oid"
    proof (cases "oid = order_id ord")
      case True
      with om' have "b = ?a" by (simp add: rest_order_def)
      with True show ?thesis by (simp add: h)
    next
      case False
      with om' have "order_map s oid = Some b" by (simp add: rest_order_def)
      with w have hb: "map_option order_id (heap s b) = Some oid" by (simp add: index_ok_def)
      then have "b \<in> dom (heap s)" by (cases "heap s b") auto
      with fresh have "b \<noteq> ?a" by auto
      with hb show ?thesis by (simp add: h)
    qed
  qed
  have 4: "next_addr ?s' = Suc ?a" by (simp add: rest_order_def)
  show ?thesis
    unfolding wf_book_agg [of ?s' sd]
    using 1 2 3 w f1 f2
    by (auto simp: h ps os 4 side_addrs_map_modify_push distinct_map_modify_push less_Suc_eq)
qed

text \<open>Cancelling.\<close>

lemma cancelOrder_None: "order_map s oid = None \<Longrightarrow> cancelOrder oid s = (False, s)"
  by (simp add: cancelOrder_def)

lemma cancelOrder_Some:
  assumes "order_map s oid = Some a"
  shows "cancelOrder oid s =
     (True, (set_own_side (side (the (heap s a)))
               (remove_order (side_comp (side (the (heap s a)))) (price (the (heap s a))) a
                  (own_side (side (the (heap s a))) s)) s)
              \<lparr>order_map := (order_map s)(oid := None), heap := (heap s)(a := None)\<rparr>)"
proof -
  have irr: "\<not> bids_comp (price (the (heap s a))) (price (the (heap s a)))"
    "\<not> asks_comp (price (the (heap s a))) (price (the (heap s a)))"
    by (simp_all add: bids_comp_def asks_comp_def std_less_def std_greater_def)
  show ?thesis
  proof (cases "side (the (heap s a))")
    case BUY
    with assms show ?thesis
      unfolding cancelOrder_def Let_def by (simp add: remove_order_eq [of bids_comp "price (the (heap s a))", OF irr(1)])
  next
    case SELL
    with assms show ?thesis
      unfolding cancelOrder_def Let_def by (simp add: remove_order_eq [of asks_comp "price (the (heap s a))", OF irr(2)])
  qed
qed

lemma opposite_neq [simp]: "opposite sd \<noteq> sd" "sd \<noteq> opposite sd"
  by (cases sd; simp)+

lemma wf_book_index:
  assumes "wf_book s" "order_map s oid = Some a"
  shows "\<exists>ord lv. heap s a = Some ord \<and> order_id ord = oid \<and> quantity ord \<noteq> 0 \<and>
           lv \<in> set (own_side (side ord) s) \<and> fst lv = price ord \<and> a \<in> set (snd lv)"
proof -
  from assms(1) have "index_ok s" by (simp add: wf_book_def)
  with assms(2) have "map_option order_id (heap s a) = Some oid" by (simp add: index_ok_def)
  then obtain ord where ord: "heap s a = Some ord" "order_id ord = oid"
    by (cases "heap s a") auto
  note w = assms(1) [unfolded wf_book_agg [of s "side ord"]]
  from ord w have "a \<in> set (side_addrs (passive_side (side ord) s)) \<union> set (side_addrs (own_side (side ord) s))"
    by auto
  moreover have "a \<notin> set (side_addrs (passive_side (side ord) s))"
  proof
    assume "a \<in> set (side_addrs (passive_side (side ord) s))"
    then obtain lv where "lv \<in> set (passive_side (side ord) s)" "a \<in> set (snd lv)"
      by (auto simp: side_addrs_def)
    with side_inv_order [of "heap s" "opposite (side ord)" "passive_side (side ord) s" lv a ord] w ord
    show False by simp
  qed
  ultimately obtain lv where lv: "lv \<in> set (own_side (side ord) s)" "a \<in> set (snd lv)"
    by (auto simp: side_addrs_def)
  with side_inv_order [of "heap s" "side ord" "own_side (side ord) s" lv a ord] w ord
  show ?thesis by auto
qed

lemma wf_book_cancel:
  assumes wf: "wf_book s"
  shows "wf_book (snd (cancelOrder oid s))"
proof (cases "order_map s oid")
  case None
  with wf show ?thesis by (simp add: cancelOrder_None)
next
  case (Some a)
  from wf_book_index [OF wf Some] obtain ord lv where
    ord: "heap s a = Some ord" "order_id ord = oid" and
    lv: "lv \<in> set (own_side (side ord) s)" "fst lv = price ord" "a \<in> set (snd lv)"
    by blast
  let ?sd = "side ord"
  let ?m = "remove_order (side_comp ?sd) (price ord) a (own_side ?sd s)"
  let ?s' = "(set_own_side ?sd ?m s)\<lparr>order_map := (order_map s)(oid := None), heap := (heap s)(a := None)\<rparr>"
  have c: "snd (cancelOrder oid s) = ?s'"
    by (simp add: cancelOrder_Some [OF Some] ord)
  note w = wf [unfolded wf_book_agg [of s ?sd]]
  from lv have a_in: "a \<in> set (side_addrs (own_side ?sd s))"
    by (auto simp: side_addrs_def)
  with w have a_notin: "a \<notin> set (side_addrs (passive_side ?sd s))" by auto
  from w have inv: "side_inv (heap s) ?sd (own_side ?sd s)" and d: "distinct (side_addrs (own_side ?sd s))"
    by auto
  note ra = remove_order_addrs [OF inv d a_in ord(1) refl]
  have 1: "side_inv (heap ?s') (opposite ?sd) (passive_side ?sd ?s')"
    using side_inv_heap_cong [of "passive_side ?sd s" "heap ?s'" "heap s" "opposite ?sd"] a_notin w
    by auto
  have 2: "side_inv (heap ?s') ?sd (own_side ?sd ?s')"
    using side_inv_remove_order [OF inv d a_in ord(1) refl] by simp
  have 3: "index_ok ?s'"
    unfolding index_ok_def
  proof (intro allI impI)
    fix oid' b
    assume "order_map ?s' oid' = Some b"
    then have om: "oid' \<noteq> oid" "order_map s oid' = Some b" by (auto split: if_splits)
    with w have "map_option order_id (heap s b) = Some oid'" by (simp add: index_ok_def)
    with om ord show "map_option order_id (heap ?s' b) = Some oid'" by auto
  qed
  show ?thesis
    unfolding c wf_book_agg [of ?s' ?sd]
    using 1 2 3 w ra a_notin by auto
qed

section \<open>The invariant holds in every reachable book\<close>

text \<open>The matching loop keeps the identity of the incoming order, the side it will rest
  on and the counters; \<^verbatim>\<open>addOrder\<close> and \<^verbatim>\<open>cancelOrder\<close> keep the invariant, so it
  holds after every command sequence.\<close>

lemma match_loop_frame:
  "order_id (fst (match_loop agg gated ord s)) = order_id ord \<and>
   side (fst (match_loop agg gated ord s)) = side ord \<and>
   otype (fst (match_loop agg gated ord s)) = otype ord \<and>
   price (fst (match_loop agg gated ord s)) = price ord \<and>
   own_side agg (snd (match_loop agg gated ord s)) = own_side agg s \<and>
   next_order_id (snd (match_loop agg gated ord s)) = next_order_id s \<and>
   next_addr (snd (match_loop agg gated ord s)) = next_addr s \<and>
   total_orders_processed (snd (match_loop agg gated ord s)) = total_orders_processed s"
  by (rule match_loop_rule [where I = "\<lambda>ord' s'. order_id ord' = order_id ord \<and>
        side ord' = side ord \<and> otype ord' = otype ord \<and> price ord' = price ord \<and>
        own_side agg s' = own_side agg s \<and> next_order_id s' = next_order_id s \<and>
        next_addr s' = next_addr s \<and> total_orders_processed s' = total_orders_processed s"])
     simp_all

lemma wf_book_counters [simp]:
  "wf_book (s\<lparr>next_order_id := i, total_orders_processed := c\<rparr>) = wf_book s"
  by (simp add: wf_book_def book_addrs_def index_ok_def)

lemma wf_book_addOrder:
  assumes "wf_book s"
  shows "wf_book (snd (addOrder sd ty p q s))"
proof -
  let ?ord = "\<lparr>order_id = next_order_id s, side = sd, otype = ty, price = p, quantity = q\<rparr>"
  let ?s1 = "s\<lparr>next_order_id := next_order_id s + 1,
               total_orders_processed := total_orders_processed s + 1\<rparr>"
  from assms have w1: "wf_book ?s1" by simp
  have sd': "side (fst (match_loop sd True ?ord ?s1)) = sd"
    using match_loop_frame [of sd True ?ord ?s1] by simp
  show ?thesis
  proof (cases ty)
    case MARKET
    with w1 show ?thesis
      by (cases sd)
         (simp_all add: addOrder_def Let_def matchMarketBuy_def matchMarketSell_def wf_book_match_loop)
  next
    case LIMIT
    show ?thesis
    proof (cases sd)
      case BUY
      with LIMIT w1 sd' show ?thesis
        by (simp add: addOrder_def Let_def matchLimitBuy_rest wf_book_match_loop wf_book_rest)
    next
      case SELL
      with LIMIT w1 sd' show ?thesis
        by (simp add: addOrder_def Let_def matchLimitSell_rest wf_book_match_loop wf_book_rest)
    qed
  qed
qed

lemma run_snoc: "run (cs @ [c]) = exec (run cs) c"
  by (simp add: run_def)

lemma run_Nil: "run [] = empty_book"
  by (simp add: run_def)

lemma wf_book_exec: "wf_book s \<Longrightarrow> wf_book (exec s c)"
  by (cases c) (simp_all add: wf_book_addOrder wf_book_cancel)

lemma wf_book_run: "wf_book (run cs)"
  by (induction cs rule: rev_induct) (simp_all add: run_Nil run_snoc wf_book_empty wf_book_exec)

section \<open>The trades of one order\<close>

lemma make_trade_ids [simp]:
  "passive_id agg (make_trade agg ord r p q) = order_id r"
  "aggressor_id agg (make_trade agg ord r p q) = order_id ord"
  "trade_price (make_trade agg ord r p q) = p"
  "trade_quantity (make_trade agg ord r p q) = q"
  by (cases agg; simp)+

lemma fills_resting_front:
  assumes wf: "wf_book s" and so: "same_orders agg s0 s"
    and ps: "passive_side agg s = (p, a # orders) # rest"
  shows "fills_resting agg s0 (order_id ord) (make_trade agg ord (the (heap s a)) p q)"
proof -
  note w = wf [unfolded wf_book_agg [of s agg] ps]
  from side_inv_front_order w obtain r where r: "heap s a = Some r" "price r = p"
    by blast
  from so ps r obtain r0 where "a \<in> set (side_addrs (passive_side agg s0))"
    "heap s0 a = Some r0" "price r = price r0" "order_id r = order_id r0"
    by (auto simp: same_orders_def)
  with r show ?thesis
    by (auto simp: fills_resting_def intro!: bexI [of _ a])
qed

lemma same_orders_fill:
  assumes wf: "wf_book s" and so: "same_orders agg s0 s"
    and ps: "passive_side agg s = (p, a # orders) # rest"
  shows "same_orders agg s0
           (set_passive_side agg (front_level p orders rest) (snd (fill_step agg p ord a s)))"
proof -
  note w = wf [unfolded wf_book_agg [of s agg] ps]
  from w have "a \<notin> set orders" "a \<notin> set (side_addrs rest)" by auto
  with so ps show ?thesis
    by (auto simp: same_orders_def)
qed

lemma same_orders_partial:
  assumes wf: "wf_book s" and so: "same_orders agg s0 s"
    and ps: "passive_side agg s = (p, a # orders) # rest"
  shows "same_orders agg s0 (snd (partial_step agg p ord a s))"
  using so ps by (auto simp: same_orders_def)

lemma match_loop_trades:
  assumes wf: "wf_book s"
  shows "\<exists>ts. trade_history (snd (match_loop agg gated ord s)) = trade_history s @ ts \<and>
              (\<forall>t \<in> set ts. fills_resting agg s (order_id ord) t)"
proof -
  let ?I = "\<lambda>ord' s'. wf_book s' \<and> order_id ord' = order_id ord \<and> same_orders agg s s' \<and>
      (\<exists>ts. trade_history s' = trade_history s @ ts \<and>
            (\<forall>t \<in> set ts. fills_resting agg s (order_id ord) t))"
  have "?I (fst (match_loop agg gated ord s)) (snd (match_loop agg gated ord s))"
  proof (rule match_loop_rule [where I = ?I], goal_cases)
    case 1
    note w = wf [unfolded wf_book_agg [of s agg]]
    have "same_orders agg s s"
      unfolding same_orders_def
    proof
      fix a
      assume a: "a \<in> set (side_addrs (passive_side agg s))"
      with w have "a \<in> dom (heap s)" by simp
      then obtain r where "heap s a = Some r" by auto
      with a show "a \<in> set (side_addrs (passive_side agg s)) \<and>
        (\<exists>r r0. heap s a = Some r \<and> heap s a = Some r0 \<and> price r = price r0 \<and>
                 order_id r = order_id r0)" by simp
    qed
    with wf show ?case by simp
  next
    case (2 ord' s' p rest)
    then show ?case using wf_book_no_empty_level by blast
  next
    case (3 ord' s' p a orders rest)
    then have wf': "wf_book s'" and so: "same_orders agg s s'" and oid: "order_id ord' = order_id ord"
      by auto
    from 3 obtain ts where ts: "trade_history s' = trade_history s @ ts"
      "\<forall>t \<in> set ts. fills_resting agg s (order_id ord) t" by auto
    from fills_resting_front [OF wf' so 3(2), of ord'] oid ts
    have "\<exists>ts'. trade_history s' @ [make_trade agg ord' (the (heap s' a)) p (quantity (the (heap s' a)))]
                = trade_history s @ ts' \<and> (\<forall>t \<in> set ts'. fills_resting agg s (order_id ord) t)"
      by (intro exI [of _ "ts @ [make_trade agg ord' (the (heap s' a)) p (quantity (the (heap s' a)))]"]) auto
    with wf_book_fill [OF wf' 3(2)] same_orders_fill [OF wf' so 3(2)] oid
    show ?case by simp
  next
    case (4 ord' s' p a orders rest)
    then have wf': "wf_book s'" and so: "same_orders agg s s'" and oid: "order_id ord' = order_id ord"
      by auto
    from 4 obtain ts where ts: "trade_history s' = trade_history s @ ts"
      "\<forall>t \<in> set ts. fills_resting agg s (order_id ord) t" by auto
    from fills_resting_front [OF wf' so 4(2), of ord'] oid ts
    have "\<exists>ts'. trade_history s' @ [make_trade agg ord' (the (heap s' a)) p (quantity ord')]
                = trade_history s @ ts' \<and> (\<forall>t \<in> set ts'. fills_resting agg s (order_id ord) t)"
      by (intro exI [of _ "ts @ [make_trade agg ord' (the (heap s' a)) p (quantity ord')]"]) auto
    with wf_book_partial [OF wf' 4(2) 4(4)] same_orders_partial [OF wf' so 4(2)] oid
    show ?case by simp
  qed
  then show ?thesis by simp
qed

section \<open>addOrder in terms of the shared loop\<close>

lemma rest_order_fields [simp]:
  "trade_history (rest_order sd ord s) = trade_history s"
  "next_order_id (rest_order sd ord s) = next_order_id s"
  "passive_side sd (rest_order sd ord s) = passive_side sd s"
  "order_map (rest_order sd ord s) = (order_map s)(order_id ord \<mapsto> next_addr s)"
  "heap (rest_order sd ord s) = (heap s)(next_addr s \<mapsto> ord)"
  "own_side sd (rest_order sd ord s) =
     map_modify (side_comp sd) (price ord) (\<lambda>q. q @ [next_addr s]) (own_side sd s)"
  by (simp_all add: rest_order_def)


lemma addOrder_matched:
  "addOrder sd ty p q s =
     (next_order_id s,
      if ty = LIMIT \<and> quantity (fst (matched sd ty p q s)) \<noteq> 0
      then rest_order sd (fst (matched sd ty p q s)) (snd (matched sd ty p q s))
      else snd (matched sd ty p q s))"
proof -
  have id: "\<And>g. order_id (fst (match_loop sd g (new_order sd ty p q s) (count_order s))) = next_order_id s"
    using match_loop_frame [of sd _ "new_order sd ty p q s" "count_order s"]
    by (simp add: new_order_def)
  show ?thesis
  proof (cases ty)
    case LIMIT
    then show ?thesis using id [of True]
      by (cases sd)
         (simp_all add: addOrder_def Let_def matched_def new_order_def [symmetric]
            count_order_def [symmetric] matchLimitBuy_rest matchLimitSell_rest)
  next
    case MARKET
    then show ?thesis using id [of False]
      by (cases sd)
         (simp_all add: addOrder_def Let_def matched_def new_order_def [symmetric]
            count_order_def [symmetric] matchMarketBuy_def matchMarketSell_def)
  qed
qed

lemma count_order_fields [simp]:
  "bids (count_order s) = bids s" "asks (count_order s) = asks s"
  "heap (count_order s) = heap s" "order_map (count_order s) = order_map s"
  "trade_history (count_order s) = trade_history s" "next_addr (count_order s) = next_addr s"
  "next_order_id (count_order s) = next_order_id s + 1"
  "own_side sd (count_order s) = own_side sd s" "passive_side sd (count_order s) = passive_side sd s"
  by (simp_all add: count_order_def)

lemma wf_book_count_order [simp]: "wf_book (count_order s) = wf_book s"
  by (simp add: count_order_def)

lemma new_order_fields [simp]:
  "order_id (new_order sd ty p q s) = next_order_id s" "side (new_order sd ty p q s) = sd"
  "otype (new_order sd ty p q s) = ty" "price (new_order sd ty p q s) = p"
  "quantity (new_order sd ty p q s) = q"
  by (simp_all add: new_order_def)

lemma matched_frame:
  "order_id (fst (matched sd ty p q s)) = next_order_id s"
  "side (fst (matched sd ty p q s)) = sd"
  "otype (fst (matched sd ty p q s)) = ty"
  "price (fst (matched sd ty p q s)) = p"
  "own_side sd (snd (matched sd ty p q s)) = own_side sd s"
  "next_order_id (snd (matched sd ty p q s)) = next_order_id s + 1"
  "next_addr (snd (matched sd ty p q s)) = next_addr s"
  using match_loop_frame [of sd "ty = LIMIT" "new_order sd ty p q s" "count_order s"]
  by (simp_all add: matched_def)


section \<open>The order index\<close>

lemma match_loop_index:
  "order_map (snd (match_loop agg gated ord s)) oid = Some b \<Longrightarrow> order_map s oid = Some b"
proof -
  have "\<forall>oid b. order_map (snd (match_loop agg gated ord s)) oid = Some b \<longrightarrow> order_map s oid = Some b"
    by (rule match_loop_rule [where I = "\<lambda>ord' s'. \<forall>oid b. order_map s' oid = Some b \<longrightarrow>
           order_map s oid = Some b"])
       (auto split: if_splits)
  then show "order_map (snd (match_loop agg gated ord s)) oid = Some b \<Longrightarrow> order_map s oid = Some b"
    by blast
qed

lemma addOrder_index:
  "order_map (snd (addOrder sd ty p q s)) oid = Some b \<Longrightarrow>
   oid = next_order_id s \<or> order_map s oid = Some b"
  using match_loop_index [of sd "ty = LIMIT" "new_order sd ty p q s" "count_order s" oid b]
  by (auto simp: addOrder_matched matched_frame matched_def [symmetric] split: if_splits)

lemma cancelOrder_index:
  "order_map (snd (cancelOrder oid' s)) oid = Some b \<Longrightarrow> order_map s oid = Some b"
  by (cases "order_map s oid'") (auto simp: cancelOrder_None cancelOrder_Some split: if_splits)

lemma exec_index_None:
  "order_map s oid = None \<Longrightarrow> oid \<noteq> next_order_id s \<Longrightarrow> order_map (exec s c) oid = None"
proof (cases c)
  case (Add sd ty p q)
  assume "order_map s oid = None" "oid \<noteq> next_order_id s"
  with addOrder_index [of sd ty p q s oid] Add show ?thesis
    by (cases "order_map (snd (addOrder sd ty p q s)) oid") auto
next
  case (Cancel oid')
  assume "order_map s oid = None"
  with cancelOrder_index [of oid' s oid] Cancel show ?thesis
    by (cases "order_map (snd (cancelOrder oid' s)) oid") auto
qed

lemma cancelOrder_effect:
  assumes wf: "wf_book s" and om: "order_map s oid = Some a"
  shows "fst (cancelOrder oid s) \<and>
         a \<notin> set (book_addrs (snd (cancelOrder oid s))) \<and>
         set (book_addrs (snd (cancelOrder oid s))) = set (book_addrs s) - {a} \<and>
         heap (snd (cancelOrder oid s)) = (heap s)(a := None) \<and>
         order_map (snd (cancelOrder oid s)) = (order_map s)(oid := None) \<and>
         trade_history (snd (cancelOrder oid s)) = trade_history s"
proof -
  from wf_book_index [OF wf om] obtain ord lv where
    ord: "heap s a = Some ord" "order_id ord = oid" and
    lv: "lv \<in> set (own_side (side ord) s)" "fst lv = price ord" "a \<in> set (snd lv)"
    by blast
  let ?sd = "side ord"
  let ?m = "remove_order (side_comp ?sd) (price ord) a (own_side ?sd s)"
  let ?s' = "(set_own_side ?sd ?m s)\<lparr>order_map := (order_map s)(oid := None), heap := (heap s)(a := None)\<rparr>"
  have c: "cancelOrder oid s = (True, ?s')"
    by (simp add: cancelOrder_Some [OF om] ord)
  note w = wf [unfolded wf_book_agg [of s ?sd]]
  from lv have a_in: "a \<in> set (side_addrs (own_side ?sd s))"
    by (auto simp: side_addrs_def)
  with w have a_notin: "a \<notin> set (side_addrs (passive_side ?sd s))" by auto
  from w have inv: "side_inv (heap s) ?sd (own_side ?sd s)" and d: "distinct (side_addrs (own_side ?sd s))"
    by auto
  note ra = remove_order_addrs [OF inv d a_in ord(1) refl]
  have "set (book_addrs ?s') = set (book_addrs s) - {a}"
    unfolding book_addrs_agg [of _ ?sd] using ra a_notin by auto
  then show ?thesis unfolding c by simp
qed

lemma cancelOrder_sides:
  assumes wf: "wf_book s" and om: "order_map s oid = Some a"
  shows "bids (snd (cancelOrder oid s)) = delete_addr a (bids s) \<and>
         asks (snd (cancelOrder oid s)) = delete_addr a (asks s)"
proof -
  from wf_book_index [OF wf om] obtain ord lv where
    ord: "heap s a = Some ord" "order_id ord = oid" and
    lv: "lv \<in> set (own_side (side ord) s)" "fst lv = price ord" "a \<in> set (snd lv)"
    by blast
  let ?sd = "side ord"
  note w = wf [unfolded wf_book_agg [of s ?sd]]
  from lv have a_in: "a \<in> set (side_addrs (own_side ?sd s))"
    by (auto simp: side_addrs_def)
  with w have a_notin: "a \<notin> set (side_addrs (passive_side ?sd s))" by auto
  from w have inv: "side_inv (heap s) ?sd (own_side ?sd s)" and d: "distinct (side_addrs (own_side ?sd s))"
    and invp: "side_inv (heap s) (opposite ?sd) (passive_side ?sd s)"
    by auto
  from invp have "\<forall>lv \<in> set (passive_side ?sd s). snd lv \<noteq> []"
    by (auto simp: side_inv_def level_ok_def list_all_iff)
  with a_notin have p: "delete_addr a (passive_side ?sd s) = passive_side ?sd s"
    by (rule delete_addr_absent)
  have o: "own_side ?sd (snd (cancelOrder oid s)) = delete_addr a (own_side ?sd s)"
    and p': "passive_side ?sd (snd (cancelOrder oid s)) = passive_side ?sd s"
    by (simp_all add: cancelOrder_Some [OF om] ord remove_order_delete [OF inv d a_in ord(1) refl])
  from o p' p show ?thesis by (cases ?sd) simp_all
qed

section \<open>Order ids before the counter wraps\<close>

text \<open>\<open>next_order_id\<close> is a 64-bit counter starting at 1.  As long as fewer than
  \<open>2 ^ 64 - 1\<close> orders have been added it has not wrapped: it is one more than the
  number of orders added, and every id in the index is smaller.\<close>

lemma adds_snoc [simp]: "adds (cs @ [c]) = adds cs + (if is_add c then 1 else 0)"
  by (simp add: adds_def)

lemma adds_Nil [simp]: "adds [] = 0"
  by (simp add: adds_def)






section \<open>A limit order that does not cross\<close>

lemma stats_fields [simp]:
  "total_orders_processed (count_order s) = total_orders_processed s + 1"
  "total_trades (count_order s) = total_trades s"
  "total_orders_processed (rest_order sd ord s) = total_orders_processed s"
  "total_trades (rest_order sd ord s) = total_trades s"
  by (simp_all add: count_order_def rest_order_def)

lemma wf_book_levels_nonempty:
  "wf_book s \<Longrightarrow> \<forall>lv \<in> set (own_side sd s). snd lv \<noteq> []"
  by (cases sd) (auto simp: wf_book_def side_inv_def level_ok_def list_all_iff)

lemma side_orders_Nil_iff:
  "\<forall>lv \<in> set m. snd lv \<noteq> [] \<Longrightarrow> side_orders s m = [] \<longleftrightarrow> m = []"
  by (cases m) (auto simp: side_orders_def)




section \<open>Conservation of quantity\<close>























lemma resting_qty_count_order [simp]: "resting_qty oid (count_order s) = resting_qty oid s"
  by (simp add: resting_qty_def book_addrs_def)

lemma ids_sat_count_order [simp]: "ids_sat P (count_order s) = ids_sat P s"
  by (simp add: ids_sat_def book_addrs_def)










section \<open>Best prices\<close>

text \<open>
  C1.  The claim: whenever the bid side is non-empty, getBestBid returns the highest
  price among the resting buy orders, and getBestAsk the lowest price among the
  resting sell orders.  The code does not do this.  \<open>bids\<close> is declared with the
  default comparator \<^verbatim>\<open>std::less\<close>, so \<^verbatim>\<open>bids.begin()\<close> is the level with the
  lowest price, and \<open>asks\<close> with \<^verbatim>\<open>std::greater\<close>, so \<^verbatim>\<open>asks.begin()\<close> is the level
  with the highest price (the comments at the declarations say the opposite).  After
  buys at 100.40 and 100.30 have rested, getBestBid is 100.30; after sells at 100.50
  and 100.60 have rested, getBestAsk is 100.60.
\<close>

theorem getBestBid_returns_lowest_bid:
  "map price (side_orders (run [Add BUY LIMIT 100.40 120, Add BUY LIMIT 100.30 180])
                (bids (run [Add BUY LIMIT 100.40 120, Add BUY LIMIT 100.30 180])))
     = [100.30, 100.40]
   \<and> getBestBid (run [Add BUY LIMIT 100.40 120, Add BUY LIMIT 100.30 180]) = 100.30
   \<and> map price (side_orders (run [Add SELL LIMIT 100.50 100, Add SELL LIMIT 100.60 150])
                (asks (run [Add SELL LIMIT 100.50 100, Add SELL LIMIT 100.60 150])))
     = [100.60, 100.50]
   \<and> getBestAsk (run [Add SELL LIMIT 100.50 100, Add SELL LIMIT 100.60 150]) = 100.60"
  by (simp add: run_eval)

text \<open>
  C10.  When a side of the book has no resting order its best-price accessor returns
  the sentinel 0.  On every book reached by a sequence of commands: if no buy order
  rests then \<open>bids\<close> has no level and getBestBid returns 0, and if no sell order rests
  then \<open>asks\<close> has no level and getBestAsk returns 0.  (A reachable book has no empty
  level, so a side without resting orders is an empty map.)
\<close>

theorem best_price_sentinel:
  "(side_orders (run cs) (bids (run cs)) = [] \<longrightarrow>
      bids (run cs) = [] \<and> getBestBid (run cs) = 0) \<and>
   (side_orders (run cs) (asks (run cs)) = [] \<longrightarrow>
      asks (run cs) = [] \<and> getBestAsk (run cs) = 0)"
proof -
  have b: "\<forall>lv \<in> set (bids (run cs)). snd lv \<noteq> []"
    using wf_book_levels_nonempty [OF wf_book_run, of BUY cs] by simp
  have a: "\<forall>lv \<in> set (asks (run cs)). snd lv \<noteq> []"
    using wf_book_levels_nonempty [OF wf_book_run, of SELL cs] by simp
  show ?thesis
    using side_orders_Nil_iff [OF b, of "run cs"] side_orders_Nil_iff [OF a, of "run cs"]
    by (simp add: getBestBid_def getBestAsk_def)
qed

theorem best_price_sentinel_witness:
  "side_orders (run [Add BUY LIMIT 100.40 120]) (bids (run [Add BUY LIMIT 100.40 120])) \<noteq> []
   \<and> getBestBid (run [Add BUY LIMIT 100.40 120]) = 100.40
   \<and> side_orders (run [Add BUY LIMIT 100.40 120, Cancel 1])
        (bids (run [Add BUY LIMIT 100.40 120, Cancel 1])) = []
   \<and> bids (run [Add BUY LIMIT 100.40 120, Cancel 1]) = []
   \<and> getBestBid (run [Add BUY LIMIT 100.40 120, Cancel 1]) = 0
   \<and> side_orders (run [Add SELL LIMIT 100.50 100, Add BUY MARKET 0 100])
        (asks (run [Add SELL LIMIT 100.50 100, Add BUY MARKET 0 100])) = []
   \<and> asks (run [Add SELL LIMIT 100.50 100, Add BUY MARKET 0 100]) = []
   \<and> getBestAsk (run [Add SELL LIMIT 100.50 100, Add BUY MARKET 0 100]) = 0"
proof -
  have e1: "side_orders (run [Add BUY LIMIT 100.40 120]) (bids (run [Add BUY LIMIT 100.40 120])) \<noteq> []"
    and e2: "getBestBid (run [Add BUY LIMIT 100.40 120]) = 100.40"
    and e3: "side_orders (run [Add BUY LIMIT 100.40 120, Cancel 1])
        (bids (run [Add BUY LIMIT 100.40 120, Cancel 1])) = []"
    and e4: "side_orders (run [Add SELL LIMIT 100.50 100, Add BUY MARKET 0 100])
        (asks (run [Add SELL LIMIT 100.50 100, Add BUY MARKET 0 100])) = []"
    by (simp_all add: run_eval)
  from best_price_sentinel [of "[Add BUY LIMIT 100.40 120, Cancel 1]"]
    best_price_sentinel [of "[Add SELL LIMIT 100.50 100, Add BUY MARKET 0 100]"] e1 e2 e3 e4
  show ?thesis by simp
qed

section \<open>Market orders\<close>

text \<open>
  C2.  The claim: on the book with asks (100.50, 100), (100.60, 150), (100.70, 200),
  (100.80, 175), (100.90, 125), a market buy of 250 trades 100 at 100.50 and then
  150 at 100.60, and the best ask becomes 100.70.  In the code the market buy consumes
  \<^verbatim>\<open>asks.begin()\<close>, the highest ask: on the book of \<^verbatim>\<open>main\<close> it trades 125 at 100.90
  and then 125 at 100.80, the asks at 100.50 and 100.60 are untouched, and
  getBestAsk is 100.80 afterwards.
\<close>

theorem market_buy_sweeps_highest_asks:
  "map (\<lambda>t. (buy_order_id t, sell_order_id t, trade_price t, trade_quantity t))
     (trade_history (run (demo_book @ [Add BUY MARKET 0 250])))
     = [(8, 5, 100.90, 125), (8, 4, 100.80, 125)]
   \<and> map (\<lambda>ord. (order_id ord, price ord, quantity ord))
        (side_orders (run (demo_book @ [Add BUY MARKET 0 250]))
           (asks (run (demo_book @ [Add BUY MARKET 0 250]))))
     = [(4, 100.80, 50), (3, 100.70, 200), (2, 100.60, 150), (1, 100.50, 100)]
   \<and> getBestAsk (run (demo_book @ [Add BUY MARKET 0 250])) = 100.80"
  by (simp add: run_eval demo_book_def)

section \<open>Crossed book\<close>

text \<open>
  C3.  The claim: after any sequence of commands the highest resting bid is strictly
  below the lowest resting ask.  The price gate of a limit buy compares with
  \<^verbatim>\<open>asks.begin()\<close>, the highest ask.  With asks resting at 100.50 and 100.90, a limit
  buy at 100.65 is stopped by the gate (100.65 < 100.90), trades nothing and rests:
  the book then holds a bid at 100.65 above an ask at 100.50.
\<close>

theorem limit_buy_crosses_book:
  "map price (side_orders (run [Add SELL LIMIT 100.50 100, Add SELL LIMIT 100.90 125, Add BUY LIMIT 100.65 10])
                (bids (run [Add SELL LIMIT 100.50 100, Add SELL LIMIT 100.90 125, Add BUY LIMIT 100.65 10])))
     = [100.65]
   \<and> map price (side_orders (run [Add SELL LIMIT 100.50 100, Add SELL LIMIT 100.90 125, Add BUY LIMIT 100.65 10])
                (asks (run [Add SELL LIMIT 100.50 100, Add SELL LIMIT 100.90 125, Add BUY LIMIT 100.65 10])))
     = [100.90, 100.50]
   \<and> trade_history (run [Add SELL LIMIT 100.50 100, Add SELL LIMIT 100.90 125, Add BUY LIMIT 100.65 10]) = []"
  by (simp add: run_eval)

section \<open>Limit order at the opposite best price\<close>

text \<open>
  C5.  The claim: a limit buy priced exactly at the lowest ask (a limit sell priced
  exactly at the highest bid) produces at least one trade.  In the code the gate of a
  limit buy lets the order through only when its price is at least the price of
  \<^verbatim>\<open>asks.begin()\<close>, the highest ask.  With asks resting at 100.50 and 100.90, a limit
  buy of 10 at 100.50 produces no trade and rests at 100.50, opposite the ask at the
  same price.
\<close>

theorem limit_buy_at_lowest_ask_no_trade:
  "trade_history (run [Add SELL LIMIT 100.50 100, Add SELL LIMIT 100.90 125, Add BUY LIMIT 100.50 10]) = []
   \<and> map (\<lambda>ord. (order_id ord, price ord, quantity ord))
        (side_orders (run [Add SELL LIMIT 100.50 100, Add SELL LIMIT 100.90 125, Add BUY LIMIT 100.50 10])
           (bids (run [Add SELL LIMIT 100.50 100, Add SELL LIMIT 100.90 125, Add BUY LIMIT 100.50 10])))
     = [(3, 100.50, 10)]
   \<and> map (\<lambda>ord. (order_id ord, price ord, quantity ord))
        (side_orders (run [Add SELL LIMIT 100.50 100, Add SELL LIMIT 100.90 125, Add BUY LIMIT 100.50 10])
           (asks (run [Add SELL LIMIT 100.50 100, Add SELL LIMIT 100.90 125, Add BUY LIMIT 100.50 10])))
     = [(2, 100.90, 125), (1, 100.50, 100)]"
  by (simp add: run_eval)

section \<open>Execution price\<close>

text \<open>
  C6.  Every trade emitted by the engine executes at the price of the resting order it
  fills.  Trades are emitted only by \<^verbatim>\<open>addOrder\<close>.  For every book reached by a
  sequence of commands and every new order, each trade appended to the trade history
  names the new order as aggressor, names a resting order of the opposite side as the
  passive party, and carries the price of that resting order, whatever the limit price
  of the new order is.
\<close>

theorem trades_execute_at_resting_price:
  "\<exists>ts. trade_history (snd (addOrder sd ty p q (run cs))) = trade_history (run cs) @ ts \<and>
        (\<forall>t \<in> set ts. fills_resting sd (run cs) (fst (addOrder sd ty p q (run cs))) t)"
proof -
  have wf: "wf_book (count_order (run cs))" by (simp add: wf_book_run)
  have fr: "\<And>t. fills_resting sd (count_order (run cs)) (next_order_id (run cs)) t
             = fills_resting sd (run cs) (next_order_id (run cs)) t"
    by (simp add: fills_resting_def)
  have th: "trade_history (snd (addOrder sd ty p q (run cs))) =
            trade_history (snd (matched sd ty p q (run cs)))"
    and oid: "fst (addOrder sd ty p q (run cs)) = next_order_id (run cs)"
    by (simp_all add: addOrder_matched)
  from match_loop_trades [OF wf, of sd "ty = LIMIT" "new_order sd ty p q (run cs)"]
  show ?thesis
    unfolding th oid by (simp add: matched_def [symmetric] fr)
qed

theorem trades_execute_at_resting_price_witness:
  "trade_history (snd (addOrder BUY LIMIT 100.60 150 (run [Add SELL LIMIT 100.50 100])))
     = trade_history (run [Add SELL LIMIT 100.50 100]) @
         [\<lparr>buy_order_id = 2, sell_order_id = 1, trade_price = 100.50, trade_quantity = 100\<rparr>]
   \<and> fills_resting BUY (run [Add SELL LIMIT 100.50 100])
         (fst (addOrder BUY LIMIT 100.60 150 (run [Add SELL LIMIT 100.50 100])))
         \<lparr>buy_order_id = 2, sell_order_id = 1, trade_price = 100.50, trade_quantity = 100\<rparr>"
  using trades_execute_at_resting_price [of BUY LIMIT "100.60" 150 "[Add SELL LIMIT 100.50 100]"]
  by (simp add: run_eval)

section \<open>Cancellation\<close>

text \<open>
  C7.  \<^verbatim>\<open>cancelOrder\<close> on any book reached by a sequence of commands.  If the id is
  not in the order index the call returns false and the book, the index and the trade
  history are unchanged.  An id in the index always denotes an order that rests in the
  book with a non-zero remaining quantity, so the id of an order that was fully filled
  or cancelled is not in the index; and an id absent from the index stays absent under
  any further command, as long as it is not the id the next new order receives.  If the
  id is in the index the call returns true; the order is deleted from its deque (and
  its level is dropped if that empties it) while every other level and deque stays as
  it was; the order is released from the store and its id is erased from the index; no
  trade is emitted; and cancelling the same id again returns false.
\<close>

theorem cancelOrder_contract:
  "(order_map (run cs) oid = None \<longrightarrow> cancelOrder oid (run cs) = (False, run cs)) \<and>
   (\<forall>a. order_map (run cs) oid = Some a \<longrightarrow>
      a \<in> set (book_addrs (run cs)) \<and>
      (\<exists>ord. heap (run cs) a = Some ord \<and> order_id ord = oid \<and> quantity ord \<noteq> 0) \<and>
      fst (cancelOrder oid (run cs)) \<and>
      a \<notin> set (book_addrs (snd (cancelOrder oid (run cs)))) \<and>
      set (book_addrs (snd (cancelOrder oid (run cs)))) = set (book_addrs (run cs)) - {a} \<and>
      bids (snd (cancelOrder oid (run cs))) = delete_addr a (bids (run cs)) \<and>
      asks (snd (cancelOrder oid (run cs))) = delete_addr a (asks (run cs)) \<and>
      heap (snd (cancelOrder oid (run cs))) = (heap (run cs))(a := None) \<and>
      order_map (snd (cancelOrder oid (run cs))) = (order_map (run cs))(oid := None) \<and>
      trade_history (snd (cancelOrder oid (run cs))) = trade_history (run cs) \<and>
      cancelOrder oid (snd (cancelOrder oid (run cs))) = (False, snd (cancelOrder oid (run cs)))) \<and>
   (\<forall>c. order_map (run cs) oid = None \<longrightarrow> oid \<noteq> next_order_id (run cs) \<longrightarrow>
      order_map (exec (run cs) c) oid = None)"
proof (intro conjI allI impI)
  assume "order_map (run cs) oid = None"
  then show "cancelOrder oid (run cs) = (False, run cs)" by (rule cancelOrder_None)
next
  fix a
  assume om: "order_map (run cs) oid = Some a"
  note eff = cancelOrder_effect [OF wf_book_run om]
  from wf_book_index [OF wf_book_run om]
  show "\<exists>ord. heap (run cs) a = Some ord \<and> order_id ord = oid \<and> quantity ord \<noteq> 0" by blast
  then show "a \<in> set (book_addrs (run cs))"
    using wf_book_run [of cs] by (auto simp: wf_book_def)
  from eff show "fst (cancelOrder oid (run cs))" by simp
  from eff show "a \<notin> set (book_addrs (snd (cancelOrder oid (run cs))))" by simp
  from eff show "set (book_addrs (snd (cancelOrder oid (run cs)))) = set (book_addrs (run cs)) - {a}"
    by simp
  from cancelOrder_sides [OF wf_book_run om]
  show "bids (snd (cancelOrder oid (run cs))) = delete_addr a (bids (run cs))"
    "asks (snd (cancelOrder oid (run cs))) = delete_addr a (asks (run cs))" by simp_all
  from eff show "heap (snd (cancelOrder oid (run cs))) = (heap (run cs))(a := None)" by simp
  from eff show "order_map (snd (cancelOrder oid (run cs))) = (order_map (run cs))(oid := None)"
    by simp
  from eff show "trade_history (snd (cancelOrder oid (run cs))) = trade_history (run cs)" by simp
  from eff have "order_map (snd (cancelOrder oid (run cs))) oid = None" by simp
  then show "cancelOrder oid (snd (cancelOrder oid (run cs))) = (False, snd (cancelOrder oid (run cs)))"
    by (rule cancelOrder_None)
next
  fix c
  assume "order_map (run cs) oid = None" "oid \<noteq> next_order_id (run cs)"
  then show "order_map (exec (run cs) c) oid = None" by (rule exec_index_None)
qed

theorem cancelOrder_contract_witness:
  "order_map (run [Add SELL LIMIT 101 50]) 1 = Some 0
   \<and> fst (cancelOrder 1 (run [Add SELL LIMIT 101 50]))
   \<and> book_addrs (snd (cancelOrder 1 (run [Add SELL LIMIT 101 50]))) = []
   \<and> order_map (snd (cancelOrder 1 (run [Add SELL LIMIT 101 50]))) 1 = None
   \<and> \<not> fst (cancelOrder 1 (snd (cancelOrder 1 (run [Add SELL LIMIT 101 50]))))
   \<and> order_map (run [Add SELL LIMIT 100.50 100, Add BUY MARKET 0 100]) 1 = None
   \<and> 1 \<noteq> next_order_id (run [Add SELL LIMIT 100.50 100, Add BUY MARKET 0 100])
   \<and> \<not> fst (cancelOrder 1 (run [Add SELL LIMIT 100.50 100, Add BUY MARKET 0 100]))
   \<and> order_map (exec (run [Add SELL LIMIT 100.50 100, Add BUY MARKET 0 100])
                  (Add SELL LIMIT 100.50 100)) 1 = None"
  using cancelOrder_contract [of "[Add SELL LIMIT 101 50]" 1]
    cancelOrder_contract [of "[Add SELL LIMIT 100.50 100, Add BUY MARKET 0 100]" 1]
  by (simp add: run_eval book_addrs_def side_addrs_def)

section \<open>Add followed by cancel\<close>



section \<open>Input validation\<close>

text \<open>
  C4.  The claim: \<^verbatim>\<open>addOrder\<close> with quantity 0, or with price <= 0 on a limit order,
  is rejected, assigns no id and changes nothing.  \<^verbatim>\<open>addOrder\<close> has no validation and
  no way to report an error.  On the empty book a limit buy of 10 at price -1 is given
  id 1, rests in the bids and is entered in the index; a market sell of quantity 0 is
  given id 1 and advances the id counter.
\<close>

theorem addOrder_accepts_invalid_input:
  "fst (addOrder BUY LIMIT (- 1) 10 empty_book) = 1
   \<and> next_order_id (snd (addOrder BUY LIMIT (- 1) 10 empty_book)) = 2
   \<and> bids (snd (addOrder BUY LIMIT (- 1) 10 empty_book)) = [(- 1, [0])]
   \<and> order_map (snd (addOrder BUY LIMIT (- 1) 10 empty_book)) 1 = Some 0
   \<and> fst (addOrder SELL MARKET 0 0 empty_book) = 1
   \<and> next_order_id (snd (addOrder SELL MARKET 0 0 empty_book)) = 2"
  by (simp add: run_eval)

text \<open>
  C4, as amended.  \<^verbatim>\<open>addOrder\<close> never rejects: every call returns the next order id
  and advances the id counter by one.  With quantity 0 (any kind, any price) no trade is
  emitted and both sides of the book, the order index, the store and the trade history
  are unchanged.  A limit order gets no price check: with a non-zero quantity and an
  empty opposite side it emits no trade and rests, whatever its price, also when the
  price is zero or negative: its own side becomes the old one with the order appended
  to the deque of the level keyed by its price (that level exists afterwards and the
  order is the last of its deque), the opposite side stays empty, the order is stored
  with the fields it was submitted with, and the index gains exactly the entry for its
  id.
\<close>

theorem addOrder_never_rejects:
  "fst (addOrder sd ty p q s) = next_order_id s \<and>
   next_order_id (snd (addOrder sd ty p q s)) = next_order_id s + 1 \<and>
   (q = 0 \<longrightarrow>
      bids (snd (addOrder sd ty p q s)) = bids s \<and> asks (snd (addOrder sd ty p q s)) = asks s \<and>
      order_map (snd (addOrder sd ty p q s)) = order_map s \<and>
      heap (snd (addOrder sd ty p q s)) = heap s \<and>
      trade_history (snd (addOrder sd ty p q s)) = trade_history s) \<and>
   (ty = LIMIT \<and> q \<noteq> 0 \<and> passive_side sd s = [] \<longrightarrow>
      trade_history (snd (addOrder sd ty p q s)) = trade_history s \<and>
      passive_side sd (snd (addOrder sd ty p q s)) = [] \<and>
      own_side sd (snd (addOrder sd ty p q s)) =
        map_modify (side_comp sd) p (\<lambda>d. d @ [next_addr s]) (own_side sd s) \<and>
      (\<exists>lv \<in> set (own_side sd (snd (addOrder sd ty p q s))).
         fst lv = p \<and> next_addr s \<in> set (snd lv) \<and> last (snd lv) = next_addr s) \<and>
      order_map (snd (addOrder sd ty p q s)) = (order_map s)(next_order_id s \<mapsto> next_addr s) \<and>
      order_map (snd (addOrder sd ty p q s)) (next_order_id s) = Some (next_addr s) \<and>
      heap (snd (addOrder sd ty p q s)) (next_addr s) =
        Some \<lparr>order_id = next_order_id s, side = sd, otype = LIMIT, price = p, quantity = q\<rparr> \<and>
      next_addr s \<in> set (side_addrs (own_side sd (snd (addOrder sd ty p q s)))))"
proof (intro conjI impI)
  show "fst (addOrder sd ty p q s) = next_order_id s" by (simp add: addOrder_matched)
  show "next_order_id (snd (addOrder sd ty p q s)) = next_order_id s + 1"
    by (simp add: addOrder_matched matched_frame)
next
  assume q0: "q = 0"
  then have m: "matched sd ty p q s = (new_order sd ty p q s, count_order s)"
    by (simp add: matched_def match_loop_zero)
  with q0 show "bids (snd (addOrder sd ty p q s)) = bids s" "asks (snd (addOrder sd ty p q s)) = asks s"
    "order_map (snd (addOrder sd ty p q s)) = order_map s" "heap (snd (addOrder sd ty p q s)) = heap s"
    "trade_history (snd (addOrder sd ty p q s)) = trade_history s"
    by (simp_all add: addOrder_matched)
next
  assume a: "ty = LIMIT \<and> q \<noteq> 0 \<and> passive_side sd s = []"
  then have m: "matched sd ty p q s = (new_order sd ty p q s, count_order s)"
    by (simp add: matched_def match_loop_empty)
  with a have own: "own_side sd (snd (addOrder sd ty p q s)) =
        map_modify (side_comp sd) p (\<lambda>d. d @ [next_addr s]) (own_side sd s)"
    by (simp add: addOrder_matched)
  then show "own_side sd (snd (addOrder sd ty p q s)) =
        map_modify (side_comp sd) p (\<lambda>d. d @ [next_addr s]) (own_side sd s)" .
  show "\<exists>lv \<in> set (own_side sd (snd (addOrder sd ty p q s))).
         fst lv = p \<and> next_addr s \<in> set (snd lv) \<and> last (snd lv) = next_addr s"
    unfolding own by (rule level_map_modify_push)
  from m a show "trade_history (snd (addOrder sd ty p q s)) = trade_history s"
    "passive_side sd (snd (addOrder sd ty p q s)) = []"
    "order_map (snd (addOrder sd ty p q s)) = (order_map s)(next_order_id s \<mapsto> next_addr s)"
    "order_map (snd (addOrder sd ty p q s)) (next_order_id s) = Some (next_addr s)"
    "heap (snd (addOrder sd ty p q s)) (next_addr s) =
        Some \<lparr>order_id = next_order_id s, side = sd, otype = LIMIT, price = p, quantity = q\<rparr>"
    "next_addr s \<in> set (side_addrs (own_side sd (snd (addOrder sd ty p q s))))"
    by (simp_all add: addOrder_matched new_order_def [symmetric] side_addrs_map_modify_push)
qed

theorem addOrder_never_rejects_witness:
  "fst (addOrder SELL MARKET 0 0 (run demo_book)) = 8
   \<and> next_order_id (snd (addOrder SELL MARKET 0 0 (run demo_book))) = 9
   \<and> bids (snd (addOrder SELL MARKET 0 0 (run demo_book))) = bids (run demo_book)
   \<and> trade_history (snd (addOrder SELL MARKET 0 0 (run demo_book))) = trade_history (run demo_book)
   \<and> passive_side BUY empty_book = []
   \<and> fst (addOrder BUY LIMIT (- 1) 10 empty_book) = 1
   \<and> bids (snd (addOrder BUY LIMIT (- 1) 10 empty_book)) = [(- 1, [0])]
   \<and> order_map (snd (addOrder BUY LIMIT (- 1) 10 empty_book)) 1 = Some 0
   \<and> heap (snd (addOrder BUY LIMIT (- 1) 10 empty_book)) 0 =
        Some \<lparr>order_id = 1, side = BUY, otype = LIMIT, price = - 1, quantity = 10\<rparr>"
  using addOrder_never_rejects [of SELL MARKET 0 0 "run demo_book"]
    addOrder_never_rejects [of BUY LIMIT "- 1" 10 empty_book]
  by (simp add: run_eval demo_book_def)

section \<open>Quantity conservation\<close>



end
